theory Spec2Isabelle
  imports Main "HOL-Library.Char_ord" "HOL-Library.List_Lexorder"
begin

section \<open>Lockfile entries: minimal and full representation\<close>

text \<open>
  The lockfile module keeps one JavaScript object per locked package. A field that is
  \<open>undefined\<close> or \<open>null\<close> is \<open>None\<close> here; an object used as a dictionary is an
  association list in insertion order, as \<open>Object.keys\<close> enumerates it.
\<close>

type_synonym Dependencies = "(string \<times> string) list"

type_synonym Permissions = "(string \<times> bool) list"

record LockManifest =
  name :: "string option"
  version :: string
  uid :: "string option"
  resolved :: "string option"
  registry :: "string option"
  permissions :: "Permissions option"
  optionalDependencies :: "Dependencies option"
  peerDependencies :: "Dependencies option"
  dependencies :: "Dependencies option"

text \<open>
  JavaScript truthiness of an optional string: \<open>undefined\<close>, \<open>null\<close> and the empty
  string are falsy. \<open>a || b\<close> on such a value is \<open>str_or a b\<close>.
\<close>

definition truthy :: "string option \<Rightarrow> bool" where
  "truthy s = (case s of None \<Rightarrow> False | Some v \<Rightarrow> v \<noteq> [])"

definition str_or :: "string option \<Rightarrow> string \<Rightarrow> string" where
  "str_or s d = (case s of None \<Rightarrow> d | Some v \<Rightarrow> if v = [] then d else v)"

text \<open>An object is always truthy, also when it has no keys: \<open>obj || {}\<close>.\<close>

definition obj_or_empty :: "('k \<times> 'v) list option \<Rightarrow> ('k \<times> 'v) list" where
  "obj_or_empty obj = (case obj of None \<Rightarrow> [] | Some m \<Rightarrow> m)"

text \<open>\<open>blankObjectUndefined\<close>: \<open>obj && Object.keys(obj).length ? obj : undefined\<close>.\<close>

definition blankObjectUndefined :: "('k \<times> 'v) list option \<Rightarrow> ('k \<times> 'v) list option" where
  "blankObjectUndefined obj =
     (case obj of None \<Rightarrow> None | Some m \<Rightarrow> if length m \<noteq> 0 then Some m else None)"

text \<open>
  \<open>getName\<close> is \<open>normalizePattern(pattern).name\<close>; \<open>normalizePattern\<close> lives in
  \<open>util/normalize-pattern.js\<close>, outside the files at hand, so the name inference is a
  parameter \<open>getName\<close> of every function that uses it.
\<close>

definition implodeEntry :: "(string \<Rightarrow> string) \<Rightarrow> string \<Rightarrow> LockManifest \<Rightarrow> LockManifest" where
  "implodeEntry getName pattern obj =
     (let inferredName = getName pattern in
      \<lparr> name = (if Some inferredName = name obj then None else name obj),
        version = version obj,
        uid = (if uid obj = Some (version obj) then None else uid obj),
        resolved = resolved obj,
        registry = (if registry obj = Some ''npm'' then None else registry obj),
        permissions = blankObjectUndefined (permissions obj),
        optionalDependencies = blankObjectUndefined (optionalDependencies obj),
        peerDependencies = blankObjectUndefined (peerDependencies obj),
        dependencies = blankObjectUndefined (dependencies obj) \<rparr>)"

text \<open>
  \<open>explodeEntry\<close> assigns six fields of the object it is given and returns that object.
  It has no assignment to \<open>peerDependencies\<close>.
\<close>

definition explodeEntry :: "(string \<Rightarrow> string) \<Rightarrow> string \<Rightarrow> LockManifest \<Rightarrow> LockManifest" where
  "explodeEntry getName pattern obj =
     obj \<lparr> optionalDependencies := Some (obj_or_empty (optionalDependencies obj)),
           dependencies := Some (obj_or_empty (dependencies obj)),
           uid := Some (str_or (uid obj) (version obj)),
           permissions := Some (obj_or_empty (permissions obj)),
           registry := Some (str_or (registry obj) ''npm''),
           name := Some (str_or (name obj) (getName pattern)) \<rparr>"

text \<open>A fully populated entry for a pattern is one that \<open>explodeEntry\<close> leaves as it is.\<close>

definition exploded :: "(string \<Rightarrow> string) \<Rightarrow> string \<Rightarrow> LockManifest \<Rightarrow> bool" where
  "exploded getName pattern e \<longleftrightarrow> explodeEntry getName pattern e = e"

text \<open>A stand-in for the name inference on plain patterns: the text before the first \<open>@\<close>.\<close>

definition name_before_at :: "string \<Rightarrow> string" where
  "name_before_at pattern = takeWhile (\<lambda>c. c \<noteq> CHR ''@'') pattern"

text \<open>An entry of the pattern \<open>foo@^1.0.0\<close> with an empty \<open>peerDependencies\<close> map.\<close>

definition entry_foo :: LockManifest where
  "entry_foo =
     \<lparr> name = Some ''foo'', version = ''1.0.0'', uid = Some ''1.0.0'',
       resolved = Some ''https://registry.example/foo-1.0.0.tgz'',
       registry = Some ''npm'', permissions = Some [],
       optionalDependencies = Some [], peerDependencies = Some [],
       dependencies = Some [(''bar'', ''^2.0.0'')] \<rparr>"

section \<open>Building the lockfile object\<close>

text \<open>
  The package records \<open>getLockfile\<close> reads: of a \<open>Manifest\<close> the fields the function touches,
  of its \<open>_remote\<close> the whole descriptor, of its \<open>_reference\<close> the permissions.
\<close>

record PackageRemote =
  r_type :: string
  r_registry :: string
  r_hash :: "string option"
  r_reference :: string
  r_resolved :: "string option"

record PackageReference =
  ref_permissions :: "Permissions option"

record Manifest =
  m_name :: string
  m_version :: string
  m_uid :: string
  m_remote :: "PackageRemote option"
  m_reference :: "PackageReference option"
  m_dependencies :: "Dependencies option"
  m_peerDependencies :: "Dependencies option"
  m_optionalDependencies :: "Dependencies option"

text \<open>
  \<open>keyForRemote\<close>:
  \<open>remote.resolved || (remote.reference && remote.hash ? `${remote.reference}#${remote.hash}` : null)\<close>.
\<close>

definition keyForRemote :: "PackageRemote \<Rightarrow> string option" where
  "keyForRemote remote =
     (if truthy (r_resolved remote) then r_resolved remote
      else (case r_hash remote of
              None \<Rightarrow> None
            | Some h \<Rightarrow> if r_reference remote \<noteq> [] \<and> h \<noteq> []
                        then Some (r_reference remote @ ''#'' @ h) else None))"

text \<open>
  \<open>Array.prototype.sort(compare)\<close>: \<open>a\<close> comes before \<open>b\<close> when \<open>compare(a, b) < 0\<close>, and
  elements that compare equal keep their order (the sort is stable since ECMAScript 2019).
  Insertion from the right gives that order.
\<close>

fun insort_cmp :: "('a \<Rightarrow> 'a \<Rightarrow> int) \<Rightarrow> 'a \<Rightarrow> 'a list \<Rightarrow> 'a list" where
  "insort_cmp cmp x [] = [x]"
| "insort_cmp cmp x (y # ys) = (if cmp x y \<le> 0 then x # y # ys else y # insort_cmp cmp x ys)"

fun sort_cmp :: "('a \<Rightarrow> 'a \<Rightarrow> int) \<Rightarrow> 'a list \<Rightarrow> 'a list" where
  "sort_cmp cmp [] = []"
| "sort_cmp cmp (x # xs) = insort_cmp cmp x (sort_cmp cmp xs)"

text \<open>
  Modelled from the spec: \<open>sortAlpha\<close> of \<open>util/misc.js\<close> is not among the files at hand.
  The spec: patterns are processed in lexicographic order. The comparator is negative,
  zero or positive as \<open>a\<close> is before, equal to or after \<open>b\<close> in the lexicographic order of
  their characters.
\<close>

definition sortAlpha :: "string \<Rightarrow> string \<Rightarrow> int" where
  "sortAlpha a b = (if a < b then - 1 else if a = b then 0 else 1)"

text \<open>
  \<open>obj[key] = value\<close> on an object in insertion order: a new key goes last. (JavaScript
  lists keys that are array indices first; a pattern or a version is not one.)
\<close>

fun obj_set :: "('k \<times> 'v) list \<Rightarrow> 'k \<Rightarrow> 'v \<Rightarrow> ('k \<times> 'v) list" where
  "obj_set [] k v = [(k, v)]"
| "obj_set ((k', v') # kvs) k v =
     (if k' = k then (k, v) # kvs else (k', v') # obj_set kvs k v)"

datatype lf_error =
    MissingReference  \<comment> \<open>\<open>invariant(ref, 'Package is missing a reference')\<close>\<close>
  | MissingRemote     \<comment> \<open>\<open>invariant(remote, 'Package is missing a remote')\<close>\<close>
  | NoPackage         \<comment> \<open>destructuring \<open>patterns[pattern]\<close> when it is \<open>undefined\<close>\<close>

text \<open>
  The entries are objects that several patterns can share and that a later iteration
  mutates, so they live in a store: \<open>heap\<close> is the list of entry objects allocated so
  far, an address is an index into it. \<open>lockfile\<close> maps patterns to addresses in
  insertion order, \<open>seen\<close> is the \<open>Map\<close> from remote keys to addresses.
\<close>

record lf_state =
  lockfile :: "(string \<times> nat) list"
  seen :: "string \<rightharpoonup> nat"
  heap :: "LockManifest list"

definition lf_init :: lf_state where
  "lf_init = \<lparr> lockfile = [], seen = Map.empty, heap = [] \<rparr>"

text \<open>The object literal handed to \<open>implodeEntry\<close> in the loop body.\<close>

definition entry_of_pkg :: "Manifest \<Rightarrow> PackageRemote \<Rightarrow> PackageReference \<Rightarrow> LockManifest" where
  "entry_of_pkg pkg remote ref =
     \<lparr> name = Some (m_name pkg), version = m_version pkg, uid = Some (m_uid pkg),
       resolved = r_resolved remote, registry = Some (r_registry remote),
       permissions = ref_permissions ref,
       optionalDependencies = m_optionalDependencies pkg,
       peerDependencies = m_peerDependencies pkg,
       dependencies = m_dependencies pkg \<rparr>"

text \<open>One iteration of the loop over \<open>sortedPatternsKeys\<close>.\<close>

definition lf_step ::
  "(string \<Rightarrow> string) \<Rightarrow> (string \<times> Manifest) list \<Rightarrow> string \<Rightarrow> lf_state \<Rightarrow> lf_error + lf_state" where
  "lf_step getName patterns pattern st =
     (case map_of patterns pattern of
        None \<Rightarrow> Inl NoPackage
      | Some pkg \<Rightarrow>
     (case m_reference pkg of
        None \<Rightarrow> Inl MissingReference
      | Some ref \<Rightarrow>
     (case m_remote pkg of
        None \<Rightarrow> Inl MissingRemote
      | Some remote \<Rightarrow>
        (let remoteKey = keyForRemote remote;
             seenPattern = (case remoteKey of None \<Rightarrow> None | Some k \<Rightarrow> seen st k)
         in case seenPattern of
              Some a \<Rightarrow>
                Inr (st \<lparr> lockfile := obj_set (lockfile st) pattern a,
                          heap := (if \<not> truthy (name (heap st ! a)) \<and> getName pattern \<noteq> m_name pkg
                                   then (heap st)[a := (heap st ! a) \<lparr> name := Some (m_name pkg) \<rparr>]
                                   else heap st) \<rparr>)
            | None \<Rightarrow>
                (let obj = implodeEntry getName pattern (entry_of_pkg pkg remote ref);
                     a = length (heap st)
                 in Inr (st \<lparr> lockfile := obj_set (lockfile st) pattern a,
                              heap := heap st @ [obj],
                              seen := (case remoteKey of
                                         None \<Rightarrow> seen st
                                       | Some k \<Rightarrow> (seen st)(k \<mapsto> a)) \<rparr>))))))"

fun lf_loop ::
  "(string \<Rightarrow> string) \<Rightarrow> (string \<times> Manifest) list \<Rightarrow> string list \<Rightarrow> lf_state \<Rightarrow> lf_error + lf_state" where
  "lf_loop getName patterns [] st = Inr st"
| "lf_loop getName patterns (pattern # rest) st =
     (case lf_step getName patterns pattern st of
        Inl e \<Rightarrow> Inl e
      | Inr st' \<Rightarrow> lf_loop getName patterns rest st')"

text \<open>
  \<open>getLockfile\<close>: \<open>patterns\<close> is the object from patterns to package records, in the order
  its keys were inserted. The result is the lockfile object, in the order its keys were
  assigned, with the store of the entries it points to.
\<close>

definition getLockfile ::
  "(string \<Rightarrow> string) \<Rightarrow> (string \<times> Manifest) list \<Rightarrow> lf_error + ((string \<times> nat) list \<times> LockManifest list)" where
  "getLockfile getName patterns =
     (let sortedPatternsKeys = sort_cmp sortAlpha (map fst patterns)
      in case lf_loop getName patterns sortedPatternsKeys lf_init of
           Inl e \<Rightarrow> Inl e
         | Inr st \<Rightarrow> Inr (lockfile st, heap st))"

text \<open>The remote key of a pattern's package record, when it has a remote.\<close>

definition key_of :: "(string \<times> Manifest) list \<Rightarrow> string \<Rightarrow> string option" where
  "key_of patterns pattern =
     (case map_of patterns pattern of
        None \<Rightarrow> None
      | Some pkg \<Rightarrow> (case m_remote pkg of None \<Rightarrow> None | Some remote \<Rightarrow> keyForRemote remote))"

text \<open>
  What the loop keeps true of its state: every address in \<open>seen\<close> is allocated, and two
  remote keys never share an address.
\<close>

definition wf_state :: "lf_state \<Rightarrow> bool" where
  "wf_state st \<longleftrightarrow>
     (\<forall>k a. seen st k = Some a \<longrightarrow> a < length (heap st)) \<and>
     (\<forall>k k' a. seen st k = Some a \<and> seen st k' = Some a \<longrightarrow> k = k')"

text \<open>The name of a pattern's package record.\<close>

definition pkg_name :: "(string \<times> Manifest) list \<Rightarrow> string \<Rightarrow> string" where
  "pkg_name patterns pattern = (case map_of patterns pattern of None \<Rightarrow> [] | Some pkg \<Rightarrow> m_name pkg)"

text \<open>Two entries that differ at most in their \<open>name\<close>.\<close>

definition same_but_name :: "LockManifest \<Rightarrow> LockManifest \<Rightarrow> bool" where
  "same_but_name e e' \<longleftrightarrow> e\<lparr>name := None\<rparr> = e'\<lparr>name := None\<rparr>"

text \<open>
  Two patterns of one package: \<open>foo@^1.0.0\<close>, and \<open>my-foo@npm:foo@1\<close> whose inferred name
  is not the package's; the same object with its keys inserted in either order.
\<close>

definition remote_foo :: PackageRemote where
  "remote_foo = \<lparr> r_type = ''tarball'', r_registry = ''npm'', r_hash = Some ''abc123'',
                   r_reference = ''https://registry.example/foo-1.0.0.tgz'',
                   r_resolved = Some ''https://registry.example/foo-1.0.0.tgz#abc123'' \<rparr>"

definition pkg_foo :: Manifest where
  "pkg_foo = \<lparr> m_name = ''foo'', m_version = ''1.0.0'', m_uid = ''1.0.0'',
                m_remote = Some remote_foo, m_reference = Some \<lparr> ref_permissions = None \<rparr>,
                m_dependencies = None, m_peerDependencies = None, m_optionalDependencies = None \<rparr>"

definition pats_ab :: "(string \<times> Manifest) list" where
  "pats_ab = [(''foo@^1.0.0'', pkg_foo), (''my-foo@npm:foo@1'', pkg_foo)]"

definition pats_ba :: "(string \<times> Manifest) list" where
  "pats_ba = [(''my-foo@npm:foo@1'', pkg_foo), (''foo@^1.0.0'', pkg_foo)]"

section \<open>Looking a pattern up in the lockfile cache\<close>

text \<open>
  A value of the parsed lockfile is an entry object or a string, the pattern another
  pattern stands for.
\<close>

datatype cache_value = Alias string | Entry LockManifest

text \<open>
  \<open>getLocked\<close> calls itself on a string value, with nothing that bounds the chain, so the
  model is a partial function: \<open>None\<close> is a call that does not return. A call that
  returns gives the entry or \<open>undefined\<close>, and the cache with the entry exploded in
  place. \<open>this.cache\<close> itself may be missing.
\<close>

partial_function (option) getLocked ::
  "(string \<Rightarrow> string) \<Rightarrow> (string \<rightharpoonup> cache_value) option \<Rightarrow> string \<Rightarrow>
     (LockManifest option \<times> (string \<rightharpoonup> cache_value) option) option" where
  "getLocked getName cache pattern =
     (case cache of
        None \<Rightarrow> Some (None, cache)
      | Some c \<Rightarrow>
          (case c pattern of
             None \<Rightarrow> Some (None, cache)
           | Some (Alias shrunk) \<Rightarrow> getLocked getName cache shrunk
           | Some (Entry shrunk) \<Rightarrow>
               Some (Some (explodeEntry getName pattern shrunk),
                     Some (c(pattern \<mapsto> Entry (explodeEntry getName pattern shrunk))))))"

text \<open>
  \<open>chain_to c p q\<close>: following string values from the pattern \<open>p\<close> reaches the pattern \<open>q\<close>,
  whose value is not a string (an entry, or no value at all).
\<close>

inductive chain_to :: "(string \<rightharpoonup> cache_value) \<Rightarrow> string \<Rightarrow> string \<Rightarrow> bool" where
  chain_absent: "c p = None \<Longrightarrow> chain_to c p p"
| chain_entry: "c p = Some (Entry e) \<Longrightarrow> chain_to c p p"
| chain_alias: "c p = Some (Alias s) \<Longrightarrow> chain_to c s q \<Longrightarrow> chain_to c p q"

text \<open>What \<open>getLocked\<close> returns at the pattern \<open>q\<close> that ends a chain.\<close>

definition locked_at ::
  "(string \<Rightarrow> string) \<Rightarrow> (string \<rightharpoonup> cache_value) \<Rightarrow> string \<Rightarrow>
     LockManifest option \<times> (string \<rightharpoonup> cache_value) option" where
  "locked_at getName c q =
     (case c q of
        Some (Entry e) \<Rightarrow>
          (Some (explodeEntry getName q e), Some (c(q \<mapsto> Entry (explodeEntry getName q e))))
      | _ \<Rightarrow> (None, Some c))"

text \<open>A cache in which \<open>a@1\<close> and \<open>b@1\<close> stand for each other.\<close>

definition cyclic_cache :: "string \<rightharpoonup> cache_value" where
  "cyclic_cache = [''a@1'' \<mapsto> Alias ''b@1'', ''b@1'' \<mapsto> Alias ''a@1'']"

text \<open>A cache in which \<open>a@1\<close> stands for \<open>b@1\<close>, which has an entry.\<close>

definition alias_cache :: "string \<rightharpoonup> cache_value" where
  "alias_cache = [''a@1'' \<mapsto> Alias ''b@1'',
                  ''b@1'' \<mapsto> Entry \<lparr> name = None, version = ''1.0.0'', uid = None,
                     resolved = Some ''https://registry.example/b-1.0.0.tgz'', registry = None,
                     permissions = None, optionalDependencies = None, peerDependencies = None,
                     dependencies = None \<rparr>]"

section \<open>The opam resolver: resolved references\<close>

text \<open>
  The string primitives \<open>parseReference\<close> uses. \<open>indexOf\<close> and \<open>lastIndexOf\<close> return \<open>-1\<close>
  when the text does not occur: \<open>None\<close> here. The delimiters are ASCII, so splitting the
  bytes of a string at them splits its UTF-16 units at the same places.
\<close>

fun indexOf :: "string \<Rightarrow> string \<Rightarrow> nat option" where
  "indexOf [] pat = (if pat = [] then Some 0 else None)"
| "indexOf (c # cs) pat =
     (if take (length pat) (c # cs) = pat then Some 0 else map_option Suc (indexOf cs pat))"

fun lastIndexOf :: "string \<Rightarrow> string \<Rightarrow> nat option" where
  "lastIndexOf [] pat = (if pat = [] then Some 0 else None)"
| "lastIndexOf (c # cs) pat =
     (case lastIndexOf cs pat of
        Some i \<Rightarrow> Some (Suc i)
      | None \<Rightarrow> if take (length pat) (c # cs) = pat then Some 0 else None)"

text \<open>\<open>value.slice(from, to)\<close> and \<open>value.slice(from)\<close> for indices that are not negative.\<close>

definition slice :: "string \<Rightarrow> nat \<Rightarrow> nat \<Rightarrow> string" where
  "slice value from to = take (to - from) (drop from value)"

definition slice_from :: "string \<Rightarrow> nat \<Rightarrow> string" where
  "slice_from value from = drop from value"

record OpamPackageReference =
  opr_fullName :: string
  opr_name :: string
  opr_scope :: "string option"
  opr_version :: string
  opr_uid :: string

datatype opam_error =
    Malformed string string
      \<comment> \<open>\<open>invariant(idx > -1, 'Malformed opam package resolution: %s (at "%s")', resolution, value)\<close>\<close>
  | InvalidVersion string string
      \<comment> \<open>\<open>invariant(v != null, `Invalid version: @${OPAM_SCOPE}/${name}@${version}`)\<close>\<close>
  | NoManifest string
      \<comment> \<open>reading \<open>.opam\<close> or \<open>.peerDependencies\<close> of a version that is not in the collection\<close>
  | InvalidOcamlVersion string
      \<comment> \<open>the \<open>TypeError\<close> of \<open>semver.satisfies(ocamlVersion, ocamlDependency)\<close>\<close>

definition parseReference :: "string \<Rightarrow> opam_error + OpamPackageReference" where
  "parseReference resolution =
     (case (case resolution of
              c # _ \<Rightarrow>
                if c = CHR ''@'' then
                  (case indexOf resolution ''/'' of
                     None \<Rightarrow> Inl (Malformed resolution resolution)
                   | Some idx \<Rightarrow> Inr (Some (slice resolution 1 idx), slice_from resolution (idx + 1)))
                else Inr (None, resolution)
            | [] \<Rightarrow> Inr (None, resolution)) of
        Inl e \<Rightarrow> Inl e
      | Inr (scope, value1) \<Rightarrow>
     (case indexOf value1 ''@'' of
        None \<Rightarrow> Inl (Malformed resolution value1)
      | Some idx1 \<Rightarrow>
     (let nm = slice value1 0 idx1; value2 = slice_from value1 (idx1 + 1) in
      case lastIndexOf value2 ''-'' of
        None \<Rightarrow> Inl (Malformed resolution value2)
      | Some idx2 \<Rightarrow>
     (let ver = slice value2 0 idx2; value3 = slice_from value2 (idx2 + 1) in
      case indexOf value3 ''.tgz'' of
        None \<Rightarrow> Inl (Malformed resolution value3)
      | Some idx3 \<Rightarrow>
          Inr \<lparr> opr_fullName = (case scope of Some s \<Rightarrow> ''@'' @ s @ ''/'' @ nm | None \<Rightarrow> nm),
                opr_name = nm, opr_scope = scope, opr_version = ver,
                opr_uid = slice value3 0 idx3 \<rparr>))))"

definition isValidReference :: "string option \<Rightarrow> bool" where
  "isValidReference resolution =
     (case resolution of
        None \<Rightarrow> False
      | Some r \<Rightarrow> (case parseReference r of Inl err \<Rightarrow> False | Inr ref \<Rightarrow> True))"

text \<open>
  The resolved string \<open>OpamResolver.resolve\<close> builds:
  \<open>`${manifest.name}@${manifest.version}-${manifest._uid}.tgz`\<close>, where the manifest's name
  is the full name, scope included.
\<close>

definition resolvedString :: "string \<Rightarrow> string \<Rightarrow> string \<Rightarrow> string" where
  "resolvedString fullName ver u = fullName @ ''@'' @ ver @ ''-'' @ u @ ''.tgz''"

text \<open>The full name of a scope and a name, as \<open>parseReference\<close> writes it.\<close>

definition fullNameOf :: "string option \<Rightarrow> string \<Rightarrow> string" where
  "fullNameOf scope nm = (case scope of Some s \<Rightarrow> ''@'' @ s @ ''/'' @ nm | None \<Rightarrow> nm)"

section \<open>The opam resolver: solving a version constraint\<close>

text \<open>
  \<open>semver\<close> and \<open>@esy-ocaml/esy-opam\<close> are packages of their own, outside this repository:
  the functions the resolver calls are parameters, gathered in one record.
  \<open>semver_parse\<close> is \<open>semver.parse\<close>, giving major, minor, patch and the pre-release tags
  of a valid version; \<open>semver_prerelease\<close> is \<open>semver.prerelease\<close>, \<open>null\<close> for a text that
  is not a version or has no pre-release tag; \<open>semver_satisfies\<close> is \<open>semver.satisfies\<close> on
  a parsed version object; \<open>semver_satisfies_str\<close> is \<open>semver.satisfies\<close> on a version
  string, which builds a version object from the string and throws a \<open>TypeError\<close> when
  the string is not a version: \<open>None\<close> is that throw;
  \<open>versionCompare\<close> is \<open>EsyOpam.versionCompare\<close>.
\<close>

record SemVer =
  raw :: string
  major :: nat
  minor :: nat
  patch :: nat
  prerelease :: "string list"
  prereleaseHidden :: "string list option"
  opamVersion :: string

record semver_api =
  semver_parse :: "string \<Rightarrow> (nat \<times> nat \<times> nat \<times> string list) option"
  semver_prerelease :: "string \<Rightarrow> string list option"
  semver_satisfies :: "SemVer \<Rightarrow> string \<Rightarrow> bool"
  semver_satisfies_str :: "string \<Rightarrow> string \<Rightarrow> bool option"
  versionCompare :: "string \<Rightarrow> string \<Rightarrow> int"

text \<open>A manifest of the collection: the fields \<open>solveVersionConstraint\<close> reads.\<close>

record OpamManifest =
  om_version :: string
  om_peerDependencies :: "Dependencies option"
  om_opam_version :: string

datatype Solution = Found string | NoVersionFound | NoVersionFoundForOcamlConstraint

text \<open>
  The function mapped over \<open>versions\<close> in \<open>findVersion\<close>. \<open>semver.parse\<close> keeps the string
  it was given as \<open>raw\<close>. The pre-release tags are moved to \<open>_prereleaseHidden\<close> when
  \<open>semver.prerelease(versionRange)\<close> is \<open>null\<close>.
\<close>

definition parse_candidate ::
  "semver_api \<Rightarrow> string \<Rightarrow> (string \<times> OpamManifest) list \<Rightarrow> string \<Rightarrow> string \<Rightarrow> opam_error + SemVer" where
  "parse_candidate lib pkgName versions versionRange ver =
     (case semver_parse lib ver of
        None \<Rightarrow> Inl (InvalidVersion pkgName ver)
      | Some (ma, mi, pa, pre) \<Rightarrow>
          (case map_of versions ver of
             None \<Rightarrow> Inl (NoManifest ver)
           | Some m \<Rightarrow>
               Inr \<lparr> raw = ver, major = ma, minor = mi, patch = pa,
                     prerelease = (if semver_prerelease lib versionRange = None then [] else pre),
                     prereleaseHidden =
                       (if semver_prerelease lib versionRange = None then Some pre else None),
                     opamVersion = om_opam_version m \<rparr>))"

text \<open>\<open>Array.prototype.map\<close> with a function that may throw: the first throw ends it.\<close>

fun map_throwing :: "('a \<Rightarrow> 'e + 'b) \<Rightarrow> 'a list \<Rightarrow> 'e + 'b list" where
  "map_throwing f [] = Inr []"
| "map_throwing f (x # xs) =
     (case f x of
        Inl e \<Rightarrow> Inl e
      | Inr y \<Rightarrow> (case map_throwing f xs of Inl e \<Rightarrow> Inl e | Inr ys \<Rightarrow> Inr (y # ys)))"

definition opam_order :: "semver_api \<Rightarrow> SemVer \<Rightarrow> SemVer \<Rightarrow> int" where
  "opam_order lib a b = - 1 * versionCompare lib (opamVersion a) (opamVersion b)"

definition findVersion ::
  "semver_api \<Rightarrow> string \<Rightarrow> (string \<times> OpamManifest) list \<Rightarrow> string list \<Rightarrow> string \<Rightarrow>
     opam_error + Solution option" where
  "findVersion lib pkgName manifests versions versionRange =
     (case map_throwing (parse_candidate lib pkgName manifests versionRange) versions of
        Inl e \<Rightarrow> Inl e
      | Inr versionsParsed \<Rightarrow>
          Inr (case find (\<lambda>v. semver_satisfies lib v versionRange)
                      (sort_cmp (opam_order lib) versionsParsed) of
                 Some v \<Rightarrow> Some (Found (raw v))
               | None \<Rightarrow> None))"

text \<open>\<open>(manifest.peerDependencies || {}).ocaml || '*'\<close>.\<close>

definition ocamlDependency :: "OpamManifest \<Rightarrow> string" where
  "ocamlDependency manifest =
     str_or (map_of (obj_or_empty (om_peerDependencies manifest)) ''ocaml'') ''*''"

text \<open>
  The test in the body of the filter loop, which throws when \<open>semver.satisfies\<close> does.
  The versions the loop runs over are keys of the collection.
\<close>

definition availableForOCamlVersion ::
  "semver_api \<Rightarrow> (string \<times> OpamManifest) list \<Rightarrow> string \<Rightarrow> string \<Rightarrow> opam_error + bool" where
  "availableForOCamlVersion lib manifests ocamlVersion ver =
     (case map_of manifests ver of
        None \<Rightarrow> Inl (NoManifest ver)
      | Some manifest \<Rightarrow>
          (case semver_satisfies_str lib ocamlVersion (ocamlDependency manifest) of
             None \<Rightarrow> Inl (InvalidOcamlVersion ocamlVersion)
           | Some ok \<Rightarrow> Inr ok))"

text \<open>The loop that pushes the versions that pass a test which may throw.\<close>

fun filter_throwing :: "('a \<Rightarrow> 'e + bool) \<Rightarrow> 'a list \<Rightarrow> 'e + 'a list" where
  "filter_throwing f [] = Inr []"
| "filter_throwing f (x # xs) =
     (case f x of
        Inl e \<Rightarrow> Inl e
      | Inr ok \<Rightarrow>
          (case filter_throwing f xs of
             Inl e \<Rightarrow> Inl e
           | Inr ys \<Rightarrow> Inr (if ok then x # ys else ys)))"

definition solveVersionConstraint ::
  "semver_api \<Rightarrow> string \<Rightarrow> (string \<times> OpamManifest) list \<Rightarrow> string \<Rightarrow> string option \<Rightarrow>
     opam_error + Solution" where
  "solveVersionConstraint lib pkgName manifests versionRange ocamlVersion =
     (let allVersions = map fst manifests
      in case (case ocamlVersion of
                 None \<Rightarrow> Inr allVersions
               | Some ov \<Rightarrow>
                   filter_throwing (availableForOCamlVersion lib manifests ov) allVersions) of
           Inl e \<Rightarrow> Inl e
         | Inr versions \<Rightarrow>
        (case findVersion lib pkgName manifests versions versionRange of
           Inl e \<Rightarrow> Inl e
         | Inr (Some solution) \<Rightarrow> Inr solution
         | Inr None \<Rightarrow>
             (case ocamlVersion of
                None \<Rightarrow> Inr NoVersionFound
              | Some ov \<Rightarrow>
                  (case findVersion lib pkgName manifests allVersions versionRange of
                     Inl e \<Rightarrow> Inl e
                   | Inr (Some solutionWithoutOCamlconstraint) \<Rightarrow>
                       Inr NoVersionFoundForOcamlConstraint
                   | Inr None \<Rightarrow> Inr NoVersionFound))))"

text \<open>
  \<open>isLockfileEntryOutdated\<close>: \<open>ocamlVersion\<close> is \<open>resolver.ocamlVersion\<close>. The collection has
  the entry alone, under its version, with that version as its opam version.
\<close>

definition isLockfileEntryOutdated ::
  "semver_api \<Rightarrow> string option \<Rightarrow> LockManifest \<Rightarrow> string \<Rightarrow> bool \<Rightarrow> opam_error + bool" where
  "isLockfileEntryOutdated lib ocamlVersion lockfileEntry versionRange hasVersion =
     (let manifestCollection =
            [(version lockfileEntry,
              \<lparr> om_version = version lockfileEntry,
                om_peerDependencies = peerDependencies lockfileEntry,
                om_opam_version = version lockfileEntry \<rparr>)]
      in if \<not> isValidReference (resolved lockfileEntry) then Inr False
         else (case solveVersionConstraint lib (str_or (name lockfileEntry) [])
                      manifestCollection versionRange ocamlVersion of
                 Inl e \<Rightarrow> Inl e
               | Inr solution \<Rightarrow> Inr (case solution of Found v \<Rightarrow> False | _ \<Rightarrow> True)))"

text \<open>Whether a candidate version passes the range test of \<open>findVersion\<close>.\<close>

definition range_ok ::
  "semver_api \<Rightarrow> string \<Rightarrow> (string \<times> OpamManifest) list \<Rightarrow> string \<Rightarrow> string \<Rightarrow> bool" where
  "range_ok lib pkgName manifests versionRange ver =
     (case parse_candidate lib pkgName manifests versionRange ver of
        Inl e \<Rightarrow> False
      | Inr v \<Rightarrow> semver_satisfies lib v versionRange)"

text \<open>The opam version of a version of the collection.\<close>

definition opam_of :: "(string \<times> OpamManifest) list \<Rightarrow> string \<Rightarrow> string" where
  "opam_of manifests ver =
     (case map_of manifests ver of None \<Rightarrow> [] | Some m \<Rightarrow> om_opam_version m)"

text \<open>
  The object \<open>findVersion\<close> builds for a version: what \<open>parse_candidate\<close> returns when the
  version parses and is a key of the collection.
\<close>

definition candidate :: "semver_api \<Rightarrow> (string \<times> OpamManifest) list \<Rightarrow> string \<Rightarrow> string \<Rightarrow> SemVer" where
  "candidate lib manifests versionRange ver =
     (case semver_parse lib ver of
        None \<Rightarrow> \<lparr> raw = ver, major = 0, minor = 0, patch = 0, prerelease = [],
                  prereleaseHidden = None, opamVersion = opam_of manifests ver \<rparr>
      | Some (ma, mi, pa, pre) \<Rightarrow>
          \<lparr> raw = ver, major = ma, minor = mi, patch = pa,
            prerelease = (if semver_prerelease lib versionRange = None then [] else pre),
            prereleaseHidden = (if semver_prerelease lib versionRange = None then Some pre else None),
            opamVersion = opam_of manifests ver \<rparr>)"

text \<open>The versions whose ocaml peer constraint the ocaml version satisfies.\<close>

definition eligible :: "semver_api \<Rightarrow> (string \<times> OpamManifest) list \<Rightarrow> string \<Rightarrow> string list" where
  "eligible lib manifests ocamlVersion =
     filter (\<lambda>ver. availableForOCamlVersion lib manifests ocamlVersion ver = Inr True)
       (map fst manifests)"

text \<open>\<open>semver.satisfies\<close> returns for the ocaml version on every manifest of the collection.\<close>

definition ocaml_version_accepted ::
  "semver_api \<Rightarrow> (string \<times> OpamManifest) list \<Rightarrow> string \<Rightarrow> bool" where
  "ocaml_version_accepted lib manifests ocamlVersion \<longleftrightarrow>
     list_all (\<lambda>ver. case availableForOCamlVersion lib manifests ocamlVersion ver of
                        Inl e \<Rightarrow> False | Inr ok \<Rightarrow> True)
       (map fst manifests)"

text \<open>Every one of a list of versions parses.\<close>

definition all_parse :: "semver_api \<Rightarrow> string list \<Rightarrow> bool" where
  "all_parse lib versions \<longleftrightarrow> list_all (\<lambda>ver. semver_parse lib ver \<noteq> None) versions"

text \<open>
  A stand-in for the two libraries on the versions and ranges of the examples: the
  versions \<open>1.0.0\<close>, \<open>1.1.0\<close>, \<open>2.0.0\<close> and \<open>2.0.0-beta1\<close> parse, every other text does not;
  a version passes \<open>*\<close>, \<open>^1.0\<close> or \<open>>=5.0.0\<close> as its numbers say, and only without a
  pre-release tag; the test of a version string throws on a text that does not parse and
  is not empty; opam versions are compared by their numbers.
\<close>

definition stub_parse :: "string \<Rightarrow> (nat \<times> nat \<times> nat \<times> string list) option" where
  "stub_parse s =
     (if s = ''1.0.0'' then Some (1, 0, 0, [])
      else if s = ''1.1.0'' then Some (1, 1, 0, [])
      else if s = ''2.0.0'' then Some (2, 0, 0, [])
      else if s = ''2.0.0-beta1'' then Some (2, 0, 0, [''beta1''])
      else None)"

definition stub_in_range :: "nat \<Rightarrow> string list \<Rightarrow> string \<Rightarrow> bool" where
  "stub_in_range ma pre rng \<longleftrightarrow>
     pre = [] \<and> (rng = ''*'' \<or> (rng = ''^1.0'' \<and> ma = 1) \<or> (rng = ''>=5.0.0'' \<and> 5 \<le> ma))"

definition stub_key :: "string \<Rightarrow> nat" where
  "stub_key s = (case stub_parse s of None \<Rightarrow> 0 | Some (ma, mi, pa, pre) \<Rightarrow> (ma * 100 + mi) * 100 + pa)"

definition stub_lib :: semver_api where
  "stub_lib =
     \<lparr> semver_parse = stub_parse,
       semver_prerelease =
         (\<lambda>s. case stub_parse s of
                 None \<Rightarrow> None
               | Some (ma, mi, pa, pre) \<Rightarrow> if pre = [] then None else Some pre),
       semver_satisfies = (\<lambda>v rng. stub_in_range (major v) (prerelease v) rng),
       semver_satisfies_str =
         (\<lambda>s rng. case stub_parse s of
                     None \<Rightarrow> if s = [] then Some False else None
                   | Some (ma, mi, pa, pre) \<Rightarrow> Some (stub_in_range ma pre rng)),
       versionCompare =
         (\<lambda>a b. if stub_key a < stub_key b then - 1 else if stub_key a = stub_key b then 0 else 1) \<rparr>"

text \<open>A manifest with no peer dependencies whose opam version is its version.\<close>

definition plain_manifest :: "string \<Rightarrow> OpamManifest" where
  "plain_manifest v = \<lparr> om_version = v, om_peerDependencies = None, om_opam_version = v \<rparr>"

text \<open>A manifest that needs ocaml \<open>^1.0\<close>.\<close>

definition ocaml1_manifest :: "string \<Rightarrow> OpamManifest" where
  "ocaml1_manifest v =
     \<lparr> om_version = v, om_peerDependencies = Some [(''ocaml'', ''^1.0'')], om_opam_version = v \<rparr>"

definition catalog_basic :: "(string \<times> OpamManifest) list" where
  "catalog_basic =
     [(''1.0.0'', plain_manifest ''1.0.0''), (''1.1.0'', plain_manifest ''1.1.0''),
      (''2.0.0-beta1'', plain_manifest ''2.0.0-beta1'')]"

definition catalog_ocaml1 :: "(string \<times> OpamManifest) list" where
  "catalog_ocaml1 = [(''1.0.0'', ocaml1_manifest ''1.0.0''), (''1.1.0'', ocaml1_manifest ''1.1.0'')]"

definition catalog_invalid :: "(string \<times> OpamManifest) list" where
  "catalog_invalid = [(''not-a-version'', plain_manifest ''not-a-version'')]"

text \<open>An entry with no \<open>resolved\<close> field, and one whose \<open>resolved\<close> is a registry URL.\<close>

definition entry_unresolved :: LockManifest where
  "entry_unresolved =
     \<lparr> name = Some ''@opam/foo'', version = ''2.0.0'', uid = Some ''2.0.0'', resolved = None,
       registry = Some ''npm'', permissions = Some [], optionalDependencies = Some [],
       peerDependencies = None, dependencies = Some [] \<rparr>"

definition entry_url :: LockManifest where
  "entry_url = entry_unresolved \<lparr> resolved := Some ''https://registry.example/foo.tgz'' \<rparr>"

section \<open>The opam fetcher\<close>

text \<open>
  What the fetcher does to the world is a trace of actions, in the order they happen;
  what the world answers is an environment: the response of the registry, the outcome
  of the write stream, and which file or subprocess action fails. MD5 and
  \<open>JSON.stringify\<close> are the platform's: parameters of the environment.
\<close>

record File =
  file_name :: string
  file_content :: string

record FetchManifest =
  opam_url :: "string option"
  opam_checksum :: "string option"
  opam_files :: "File list"
  opam_patches :: "File list"

datatype fetch_action =
    Request string                    \<comment> \<open>\<open>registry.request(url, ...)\<close>\<close>
  | CreateWriteStream string          \<comment> \<open>\<open>nodeFs.createWriteStream(filename)\<close>, piped into\<close>
  | HasherUpdate string               \<comment> \<open>\<open>hasher.update(chunk)\<close>\<close>
  | HasherDigest                      \<comment> \<open>\<open>hasher.digest("hex")\<close>\<close>
  | ExtractZip string string          \<comment> \<open>\<open>new DecompressZip(filename).extract({strip: 1, path: dest})\<close>\<close>
  | Exec string "string option"       \<comment> \<open>\<open>child.exec(command, {cwd})\<close>\<close>
  | Mkdirp string
  | WriteFile string string
  | Unlink string

datatype fetch_error =
    SecurityError string              \<comment> \<open>\<open>new SecurityError(`Incorrect md5sum ...`)\<close>\<close>
  | RequestFailed nat                 \<comment> \<open>\<open>new Error(reporter.lang("requestFailed", ...))\<close> for a status\<close>
  | StreamError string                \<comment> \<open>the \<open>error\<close> event of the write stream\<close>
  | ActionFailed fetch_action string  \<comment> \<open>a rejected file or subprocess call\<close>
  | NotAFunction string               \<comment> \<open>the \<open>TypeError\<close> of calling a binding that is \<open>undefined\<close>\<close>

record fetch_env =
  env_md5 :: "string \<Rightarrow> string"
  env_stringify :: "FetchManifest \<Rightarrow> string"
  env_TARBALL_FILENAME :: string
  env_statusCode :: nat
  env_chunks :: "string list"
  env_writeError :: "string option"
  env_fails :: "fetch_action \<Rightarrow> string option"

record OpamFetcher =
  f_dest :: string
  f_reference :: string
  f_hash :: "string option"

record FetchedOverride =
  fo_hash :: string
  fo_resolved :: "string option"

text \<open>\<open>path.join\<close> and \<open>path.dirname\<close> on paths that need no normalising.\<close>

definition path_join :: "string \<Rightarrow> string \<Rightarrow> string" where
  "path_join dir file = dir @ ''/'' @ file"

definition path_dirname :: "string \<Rightarrow> string" where
  "path_dirname p = (case lastIndexOf p ''/'' of None \<Rightarrow> ''.'' | Some i \<Rightarrow> take i p)"

text \<open>An action of the file system or a subprocess: it is performed, and may fail.\<close>

definition perform :: "fetch_env \<Rightarrow> fetch_action \<Rightarrow> fetch_action list \<times> fetch_error option" where
  "perform env a =
     ([a], case env_fails env a of None \<Rightarrow> None | Some err \<Rightarrow> Some (ActionFailed a err))"

text \<open>Two steps in sequence, each awaited: a failure of the first skips the second.\<close>

definition and_then ::
  "fetch_action list \<times> fetch_error option \<Rightarrow> fetch_action list \<times> fetch_error option \<Rightarrow>
     fetch_action list \<times> fetch_error option" where
  "and_then first second =
     (case snd first of
        Some e \<Rightarrow> first
      | None \<Rightarrow> (fst first @ fst second, snd second))"

text \<open>
  \<open>writeValidatedStream\<close>. The \<open>data\<close> handler feeds a chunk to the hasher only when a
  checksum was given; \<open>hashed\<close> is what the hasher has been fed.
\<close>

definition on_data ::
  "string option \<Rightarrow> string \<times> fetch_action list \<Rightarrow> string \<Rightarrow> string \<times> fetch_action list" where
  "on_data md5checksum st chunk =
     (if md5checksum \<noteq> None then (fst st @ chunk, snd st @ [HasherUpdate chunk]) else st)"

definition writeValidatedStream ::
  "fetch_env \<Rightarrow> string \<Rightarrow> string option \<Rightarrow> fetch_action list \<times> (fetch_error + string)" where
  "writeValidatedStream env filename md5checksum =
     (let st = foldl (on_data md5checksum) ([], [CreateWriteStream filename]) (env_chunks env);
          hashed = fst st; trace = snd st
      in case env_writeError env of
           Some err \<Rightarrow> (trace, Inl (StreamError err))
         | None \<Rightarrow>
             (let actualChecksum = env_md5 env hashed
              in (trace @ [HasherDigest],
                  case md5checksum of
                    None \<Rightarrow> Inr actualChecksum
                  | Some expected \<Rightarrow>
                      if actualChecksum \<noteq> expected
                      then Inl (SecurityError (''Incorrect md5sum (expected '' @ expected @
                                               '', got '' @ actualChecksum @ '')''))
                      else Inr actualChecksum)))"

text \<open>
  \<open>_fetchTarball\<close>. The promise of \<open>registry.request\<close> settles with the first of
  \<open>resolve\<close> and \<open>reject\<close> that \<open>process\<close> calls. \<open>handleRequestError\<close> runs on the
  \<open>response\<close> event, before the stream has finished, and rejects on a status of 400 or
  more; the stream is written all the same.
\<close>

definition fetchTarball ::
  "fetch_env \<Rightarrow> string \<Rightarrow> string option \<Rightarrow> string \<Rightarrow> fetch_action list \<times> (fetch_error + string)" where
  "fetchTarball env url md5checksum filename =
     (let written = writeValidatedStream env filename md5checksum
      in (Request url # fst written,
          if 400 \<le> env_statusCode env then Inl (RequestFailed (env_statusCode env))
          else snd written))"

datatype TarballFormat = Gzip | Bzip | Zip | Xz

definition endsWith :: "string \<Rightarrow> string \<Rightarrow> bool" where
  "endsWith s suffix \<longleftrightarrow>
     length suffix \<le> length s \<and> drop (length s - length suffix) s = suffix"

definition getTarballFormatFromFilename :: "string \<Rightarrow> TarballFormat" where
  "getTarballFormatFromFilename filename =
     (if endsWith filename ''.tgz'' \<or> endsWith filename ''.tar.gz'' then Gzip
      else if endsWith filename ''.tar.bz'' \<or> endsWith filename ''.tar.bz2'' \<or>
              endsWith filename ''.tbz'' then Bzip
      else if endsWith filename ''.zip'' then Zip
      else if endsWith filename ''.xz'' then Xz
      else Gzip)"

definition unpackTarball ::
  "fetch_env \<Rightarrow> string \<Rightarrow> string \<Rightarrow> TarballFormat \<Rightarrow> fetch_action list \<times> fetch_error option" where
  "unpackTarball env filename dest format =
     (if format = Zip then perform env (ExtractZip filename dest)
      else (let unpackOptions =
                  (if format = Gzip then ''-xzf'' else if format = Xz then ''-xJf'' else ''-xjf'')
            in perform env (Exec (''tar '' @ unpackOptions @ '' '' @ filename @
                                  '' --strip-components 1 -C '' @ dest) None)))"

definition writeJson ::
  "fetch_env \<Rightarrow> string \<Rightarrow> FetchManifest \<Rightarrow> fetch_action list \<times> fetch_error option" where
  "writeJson env filename object = perform env (WriteFile filename (env_stringify env object))"

text \<open>
  \<open>writeFiles\<close> maps an asynchronous function over the files and waits with
  \<open>Promise.all\<close>. Each call runs to its first \<open>await\<close> at once, so every \<open>mkdirp\<close> is
  started, in the order of the files, before any file is written; a file is written
  when its \<open>mkdirp\<close> has succeeded; no call is skipped because another failed. The
  promise is rejected with the error of the first call that fails: here the first
  failed \<open>mkdirp\<close>, and with none, the first failed write.
\<close>

definition file_dir :: "string \<Rightarrow> File \<Rightarrow> string" where
  "file_dir dest file = path_dirname (path_join dest (file_name file))"

fun first_error :: "fetch_error option list \<Rightarrow> fetch_error option" where
  "first_error [] = None"
| "first_error (None # rest) = first_error rest"
| "first_error (Some e # rest) = Some e"

definition writeFiles ::
  "fetch_env \<Rightarrow> string \<Rightarrow> File list \<Rightarrow> fetch_action list \<times> fetch_error option" where
  "writeFiles env dest files =
     (let dirs = map (\<lambda>file. perform env (Mkdirp (file_dir dest file))) files;
          made = filter (\<lambda>file. env_fails env (Mkdirp (file_dir dest file)) = None) files;
          writes = map (\<lambda>file. perform env (WriteFile (path_join dest (file_name file))
                                                        (file_content file))) made
      in (concat (map fst dirs) @ concat (map fst writes),
          first_error (map snd dirs @ map snd writes)))"

fun applyPatches ::
  "fetch_env \<Rightarrow> string \<Rightarrow> File list \<Rightarrow> fetch_action list \<times> fetch_error option" where
  "applyPatches env dest [] = ([], None)"
| "applyPatches env dest (p # rest) =
     (let patchFilename = path_join dest (file_name p)
      in and_then (perform env (WriteFile patchFilename (file_content p)))
        (and_then (perform env (Exec ''patch -p1 < _esy_patch'' (Some dest)))
        (and_then (perform env (Unlink patchFilename))
                  (applyPatches env dest rest))))"

text \<open>
  The statements of \<open>_fetch\<close> that follow the lookup of the manifest, from
  \<open>let hash = this.hash || ""\<close> to the \<open>return\<close>, run on a manifest.
\<close>

definition fetch_manifest ::
  "fetch_env \<Rightarrow> OpamFetcher \<Rightarrow> FetchManifest \<Rightarrow> fetch_action list \<times> (fetch_error + FetchedOverride)" where
  "fetch_manifest env this manifest =
     (let dest = f_dest this;
          hash0 = str_or (f_hash this) [];
          download =
            (case opam_url manifest of
               None \<Rightarrow> ([], Inr hash0)
             | Some url \<Rightarrow>
                 (let tarballStorePath = path_join dest (env_TARBALL_FILENAME env);
                      tarballFormat = getTarballFormatFromFilename url;
                      fetched = fetchTarball env url (opam_checksum manifest) tarballStorePath
                  in case snd fetched of
                       Inl e \<Rightarrow> (fst fetched, Inl e)
                     | Inr h \<Rightarrow>
                         (let unpacked = unpackTarball env tarballStorePath dest tarballFormat
                          in (fst fetched @ fst unpacked,
                              case snd unpacked of Some e \<Rightarrow> Inl e | None \<Rightarrow> Inr h))))
      in case snd download of
           Inl e \<Rightarrow> (fst download, Inl e)
         | Inr hash \<Rightarrow>
             (let rest = and_then (writeJson env (path_join dest ''package.json'') manifest)
                        (and_then (writeFiles env dest (opam_files manifest))
                                  (applyPatches env dest (opam_patches manifest)))
              in (fst download @ fst rest,
                  case snd rest of
                    Some e \<Rightarrow> Inl e
                  | None \<Rightarrow> Inr \<lparr> fo_hash = hash, fo_resolved = None \<rparr>)))"

text \<open>
  \<open>_fetch\<close>. Its first statement calls \<open>parseResolution\<close>, which the fetcher imports from
  the resolver module. That module exports its resolver class, \<open>lookupManifest\<close>,
  \<open>parseReference\<close> and \<open>parseFragment\<close>, and no \<open>parseResolution\<close>: the binding is
  \<open>undefined\<close>, the call throws a \<open>TypeError\<close>, and no later statement of \<open>_fetch\<close> runs.
\<close>

definition fetch ::
  "fetch_env \<Rightarrow> OpamFetcher \<Rightarrow> fetch_action list \<times> (fetch_error + FetchedOverride)" where
  "fetch env this = ([], Inl (NotAFunction ''parseResolution''))"


fun is_hasher_update :: "fetch_action \<Rightarrow> bool" where
  "is_hasher_update (HasherUpdate chunk) = True"
| "is_hasher_update a = False"


text \<open>The actions of the file system and of subprocesses.\<close>

fun is_fs :: "fetch_action \<Rightarrow> bool" where
  "is_fs (ExtractZip filename dest) = True"
| "is_fs (Exec command cwd) = True"
| "is_fs (Mkdirp dir) = True"
| "is_fs (WriteFile filename content) = True"
| "is_fs (Unlink filename) = True"
| "is_fs a = False"

text \<open>
  A fetcher of \<open>@opam/foo@1.0.0-abc.tgz\<close> and three manifests for it. The digests are
  those of the byte strings of the example: of no bytes, of \<open>hello world\<close>, and one value
  for every other content.
\<close>

definition stub_md5 :: "string \<Rightarrow> string" where
  "stub_md5 bytes =
     (if bytes = [] then ''d41d8cd98f00b204e9800998ecf8427e''
      else if bytes = ''hello world'' then ''5eb63bbbe01eeed093cb22bb8f5acdc3''
      else ''00000000000000000000000000000000'')"

definition fetcher_foo :: OpamFetcher where
  "fetcher_foo = \<lparr> f_dest = ''/cache/foo'', f_reference = ''@opam/foo@1.0.0-abc.tgz'', f_hash = None \<rparr>"

definition manifest_sum :: FetchManifest where
  "manifest_sum =
     \<lparr> opam_url = Some ''https://example.org/foo-1.0.0.tar.gz'',
       opam_checksum = Some ''5eb63bbbe01eeed093cb22bb8f5acdc3'',
       opam_files = [], opam_patches = [] \<rparr>"

definition manifest_nosum :: FetchManifest where
  "manifest_nosum = manifest_sum \<lparr> opam_checksum := None \<rparr>"

definition manifest_nourl :: FetchManifest where
  "manifest_nourl = manifest_sum \<lparr> opam_url := None, opam_checksum := None \<rparr>"

definition example_env :: "nat \<Rightarrow> string list \<Rightarrow> fetch_env" where
  "example_env status chunks =
     \<lparr> env_md5 = stub_md5,
       env_stringify = (\<lambda>m. ''{}''),
       env_TARBALL_FILENAME = ''.yarn-tarball.tgz'',
       env_statusCode = status,
       env_chunks = chunks,
       env_writeError = None,
       env_fails = (\<lambda>a. None) \<rparr>"

section \<open>Round trip of entries\<close>

lemma explodeEntry_fields:
  "name (explodeEntry g p e) = Some (str_or (name e) (g p))"
  "version (explodeEntry g p e) = version e"
  "uid (explodeEntry g p e) = Some (str_or (uid e) (version e))"
  "resolved (explodeEntry g p e) = resolved e"
  "registry (explodeEntry g p e) = Some (str_or (registry e) ''npm'')"
  "permissions (explodeEntry g p e) = Some (obj_or_empty (permissions e))"
  "optionalDependencies (explodeEntry g p e) = Some (obj_or_empty (optionalDependencies e))"
  "peerDependencies (explodeEntry g p e) = peerDependencies e"
  "dependencies (explodeEntry g p e) = Some (obj_or_empty (dependencies e))"
  by (simp_all add: explodeEntry_def)

lemma obj_roundtrip:
  "m = Some (obj_or_empty m) \<Longrightarrow> Some (obj_or_empty (blankObjectUndefined m)) = m"
  by (cases m) (auto simp: obj_or_empty_def blankObjectUndefined_def)

text \<open>
  Every field but \<open>peerDependencies\<close> comes back from the minimal form of a fully
  populated entry.
\<close>

lemma roundtrip_other_fields:
  assumes "exploded g p e"
  shows "explodeEntry g p (implodeEntry g p e) = e\<lparr>peerDependencies := blankObjectUndefined (peerDependencies e)\<rparr>"
proof -
  from assms have fx: "explodeEntry g p e = e" by (simp add: exploded_def)
  have n: "name e = Some (str_or (name e) (g p))"
    using explodeEntry_fields(1)[of g p e] fx by simp
  have u: "uid e = Some (str_or (uid e) (version e))"
    using explodeEntry_fields(3)[of g p e] fx by simp
  have r: "registry e = Some (str_or (registry e) ''npm'')"
    using explodeEntry_fields(5)[of g p e] fx by simp
  have pm: "permissions e = Some (obj_or_empty (permissions e))"
    using explodeEntry_fields(6)[of g p e] fx by simp
  have od: "optionalDependencies e = Some (obj_or_empty (optionalDependencies e))"
    using explodeEntry_fields(7)[of g p e] fx by simp
  have d: "dependencies e = Some (obj_or_empty (dependencies e))"
    using explodeEntry_fields(9)[of g p e] fx by simp
  have n': "Some (str_or (if Some (g p) = name e then None else name e) (g p)) = name e"
    using n by (cases "name e") (auto simp: str_or_def split: if_splits)
  have u': "Some (str_or (if uid e = Some (version e) then None else uid e) (version e)) = uid e"
    using u by (cases "uid e") (auto simp: str_or_def split: if_splits)
  have r': "Some (str_or (if registry e = Some ''npm'' then None else registry e) ''npm'') = registry e"
    using r by (cases "registry e") (auto simp: str_or_def split: if_splits)
  show ?thesis
    by (rule LockManifest.equality)
       (simp_all add: explodeEntry_def implodeEntry_def Let_def n' u' r'
          obj_roundtrip[OF pm] obj_roundtrip[OF od] obj_roundtrip[OF d])
qed

text \<open>
  C1. The claim: for every fully populated entry \<open>e\<close> of a pattern \<open>p\<close>, also one whose
  \<open>peerDependencies\<close> map is empty, \<open>explodeEntry p (implodeEntry p e)\<close> equals \<open>e\<close> field
  for field. The code at the entry \<open>entry_foo\<close> of \<open>foo@^1.0.0\<close>: the entry is fully
  populated, its empty \<open>peerDependencies\<close> map is dropped by \<open>implodeEntry\<close> and
  \<open>explodeEntry\<close> does not put it back, so the round trip returns a different entry.
\<close>

theorem C1_roundtrip_loses_empty_peerDependencies:
  "exploded name_before_at ''foo@^1.0.0'' entry_foo \<and>
   peerDependencies entry_foo = Some [] \<and>
   peerDependencies (explodeEntry name_before_at ''foo@^1.0.0''
       (implodeEntry name_before_at ''foo@^1.0.0'' entry_foo)) = None \<and>
   explodeEntry name_before_at ''foo@^1.0.0''
       (implodeEntry name_before_at ''foo@^1.0.0'' entry_foo) \<noteq> entry_foo"
  by (simp add: exploded_def explodeEntry_def implodeEntry_def entry_foo_def name_before_at_def
      str_or_def obj_or_empty_def blankObjectUndefined_def)

section \<open>Deduplication and order of the lockfile object\<close>

lemma insort_cmp_sortAlpha: "insort_cmp sortAlpha x ys = insort x ys"
  by (induction ys) (auto simp: sortAlpha_def)

lemma sort_cmp_sortAlpha: "sort_cmp sortAlpha xs = sort xs"
  by (induction xs) (simp_all add: insort_cmp_sortAlpha)

lemma map_of_obj_set: "map_of (obj_set al k v) = (map_of al)(k \<mapsto> v)"
  by (induction al k v rule: obj_set.induct) (auto simp: fun_eq_iff)

lemma keys_obj_set_fresh: "k \<notin> fst ` set al \<Longrightarrow> map fst (obj_set al k v) = map fst al @ [k]"
  by (induction al k v rule: obj_set.induct) auto

text \<open>The two branches of a step that returns.\<close>

lemma lf_step_cases:
  assumes "lf_step g pats p st = Inr st'"
  obtains (shared) pkg ref remote k a where
      "map_of pats p = Some pkg" "m_reference pkg = Some ref" "m_remote pkg = Some remote"
      "keyForRemote remote = Some k" "seen st k = Some a"
      "st' = st \<lparr> lockfile := obj_set (lockfile st) p a,
                  heap := (if \<not> truthy (name (heap st ! a)) \<and> g p \<noteq> m_name pkg
                           then (heap st)[a := (heap st ! a) \<lparr> name := Some (m_name pkg) \<rparr>]
                           else heap st) \<rparr>"
  | (fresh) pkg ref remote where
      "map_of pats p = Some pkg" "m_reference pkg = Some ref" "m_remote pkg = Some remote"
      "\<forall>k. keyForRemote remote = Some k \<longrightarrow> seen st k = None"
      "st' = st \<lparr> lockfile := obj_set (lockfile st) p (length (heap st)),
                  heap := heap st @ [implodeEntry g p (entry_of_pkg pkg remote ref)],
                  seen := (case keyForRemote remote of
                             None \<Rightarrow> seen st
                           | Some k \<Rightarrow> (seen st)(k \<mapsto> length (heap st))) \<rparr>"
  using assms
  by (auto simp: lf_step_def Let_def split: option.splits)

lemma step_wf:
  assumes "lf_step g pats p st = Inr st'" "wf_state st"
  shows "wf_state st'"
  using assms(1)
proof (cases rule: lf_step_cases)
  case (shared pkg ref remote k a)
  with assms(2) show ?thesis by (auto simp: wf_state_def)
next
  case (fresh pkg ref remote)
  show ?thesis
  proof (cases "keyForRemote remote")
    case None
    with fresh assms(2) show ?thesis by (auto simp: wf_state_def less_Suc_eq)
  next
    case (Some k)
    with fresh assms(2) show ?thesis
      by (auto simp: wf_state_def less_Suc_eq split: if_splits)
  qed
qed

lemma step_seen_mono:
  assumes "lf_step g pats p st = Inr st'" "seen st k = Some a"
  shows "seen st' k = Some a"
  using assms(1)
proof (cases rule: lf_step_cases)
  case (shared pkg ref remote k a)
  with assms(2) show ?thesis by simp
next
  case (fresh pkg ref remote)
  with assms(2) show ?thesis by (cases "keyForRemote remote") auto
qed

lemma step_seen_origin:
  assumes "lf_step g pats p st = Inr st'" "seen st' k = Some a"
  shows "seen st k = Some a \<or> (key_of pats p = Some k \<and> seen st k = None \<and> a = length (heap st))"
  using assms(1)
proof (cases rule: lf_step_cases)
  case (shared pkg ref remote k a)
  with assms(2) show ?thesis by simp
next
  case (fresh pkg ref remote)
  with assms(2) show ?thesis
    by (cases "keyForRemote remote") (auto simp: key_of_def split: if_splits)
qed

lemma step_binds:
  assumes "lf_step g pats p st = Inr st'" "key_of pats p = Some k"
  shows "\<exists>a. seen st' k = Some a \<and> map_of (lockfile st') p = Some a"
  using assms(1)
proof (cases rule: lf_step_cases)
  case (shared pkg ref remote k' a)
  with assms(2) show ?thesis by (simp add: key_of_def map_of_obj_set)
next
  case (fresh pkg ref remote)
  with assms(2) show ?thesis by (simp add: key_of_def map_of_obj_set)
qed

lemma step_lockfile_other:
  assumes "lf_step g pats p st = Inr st'" "q \<noteq> p"
  shows "map_of (lockfile st') q = map_of (lockfile st) q"
  using assms(1)
  by (cases rule: lf_step_cases) (use assms(2) in \<open>simp_all add: map_of_obj_set\<close>)

lemma step_keys:
  assumes "lf_step g pats p st = Inr st'" "p \<notin> fst ` set (lockfile st)"
  shows "map fst (lockfile st') = map fst (lockfile st) @ [p]"
  using assms(1)
  by (cases rule: lf_step_cases) (use assms(2) in \<open>simp_all add: keys_obj_set_fresh\<close>)

lemma step_heap_length:
  assumes "lf_step g pats p st = Inr st'"
  shows "length (heap st) \<le> length (heap st')"
  using assms(1)
  by (cases rule: lf_step_cases) simp_all

lemma step_same_but_name:
  assumes "lf_step g pats p st = Inr st'" "a < length (heap st)"
  shows "same_but_name (heap st' ! a) (heap st ! a)"
  using assms(1)
proof (cases rule: lf_step_cases)
  case (shared pkg ref remote k b)
  with assms(2) show ?thesis
    by (cases "a = b") (auto simp: same_but_name_def)
next
  case (fresh pkg ref remote)
  with assms(2) show ?thesis by (simp add: same_but_name_def nth_append)
qed

text \<open>How one iteration changes the name of the entry of a remote key.\<close>

lemma step_name:
  assumes "lf_step g pats p st = Inr st'" "wf_state st" "seen st k0 = Some a"
  shows "name (heap st' ! a) =
           (if key_of pats p = Some k0 \<and> \<not> truthy (name (heap st ! a)) \<and> g p \<noteq> pkg_name pats p
            then Some (pkg_name pats p) else name (heap st ! a))"
  using assms(1)
proof (cases rule: lf_step_cases)
  case (shared pkg ref remote k b)
  from assms(2,3) have a: "a < length (heap st)" by (auto simp: wf_state_def)
  from shared assms(2) have b: "b < length (heap st)" by (auto simp: wf_state_def)
  have kk: "key_of pats p = Some k" using shared by (simp add: key_of_def)
  have ab: "a = b \<longleftrightarrow> k = k0"
    using assms(2,3) shared(5) by (auto simp: wf_state_def)
  show ?thesis
    using shared a b kk ab by (auto simp: pkg_name_def)
next
  case (fresh pkg ref remote)
  from assms(2,3) have a: "a < length (heap st)" by (auto simp: wf_state_def)
  have "key_of pats p \<noteq> Some k0"
    using fresh assms(3) by (auto simp: key_of_def)
  with fresh a show ?thesis by (simp add: nth_append)
qed

lemma lf_loop_Cons_Inr:
  assumes "lf_loop g pats (p # ks) st = Inr st'"
  obtains st1 where "lf_step g pats p st = Inr st1" "lf_loop g pats ks st1 = Inr st'"
  using assms by (auto split: sum.splits)

lemma lf_loop_append:
  "lf_loop g pats (xs @ ys) st =
     (case lf_loop g pats xs st of Inl e \<Rightarrow> Inl e | Inr st1 \<Rightarrow> lf_loop g pats ys st1)"
  by (induction xs arbitrary: st) (auto split: sum.splits)

lemma loop_wf:
  "lf_loop g pats ks st = Inr st' \<Longrightarrow> wf_state st \<Longrightarrow> wf_state st'"
proof (induction ks arbitrary: st)
  case Nil
  then show ?case by simp
next
  case (Cons p ks)
  from Cons.prems(1) obtain st1 where
    s: "lf_step g pats p st = Inr st1" and l: "lf_loop g pats ks st1 = Inr st'"
    by (rule lf_loop_Cons_Inr)
  from Cons.IH[OF l step_wf[OF s Cons.prems(2)]] show ?case .
qed

lemma loop_seen_mono:
  "lf_loop g pats ks st = Inr st' \<Longrightarrow> seen st k = Some a \<Longrightarrow> seen st' k = Some a"
proof (induction ks arbitrary: st)
  case Nil
  then show ?case by simp
next
  case (Cons p ks)
  from Cons.prems(1) obtain st1 where
    s: "lf_step g pats p st = Inr st1" and l: "lf_loop g pats ks st1 = Inr st'"
    by (rule lf_loop_Cons_Inr)
  from Cons.IH[OF l step_seen_mono[OF s Cons.prems(2)]] show ?case .
qed

lemma loop_seen_origin:
  "lf_loop g pats ks st = Inr st' \<Longrightarrow> seen st' k = Some a \<Longrightarrow>
     seen st k = Some a \<or> (\<exists>p \<in> set ks. key_of pats p = Some k)"
proof (induction ks arbitrary: st)
  case Nil
  then show ?case by simp
next
  case (Cons p ks)
  from Cons.prems(1) obtain st1 where
    s: "lf_step g pats p st = Inr st1" and l: "lf_loop g pats ks st1 = Inr st'"
    by (rule lf_loop_Cons_Inr)
  from Cons.IH[OF l Cons.prems(2)] step_seen_origin[OF s] show ?case by auto
qed

lemma loop_heap_length:
  "lf_loop g pats ks st = Inr st' \<Longrightarrow> length (heap st) \<le> length (heap st')"
proof (induction ks arbitrary: st)
  case Nil
  then show ?case by simp
next
  case (Cons p ks)
  from Cons.prems(1) obtain st1 where
    s: "lf_step g pats p st = Inr st1" and l: "lf_loop g pats ks st1 = Inr st'"
    by (rule lf_loop_Cons_Inr)
  from Cons.IH[OF l] step_heap_length[OF s] show ?case by simp
qed

lemma loop_lockfile_other:
  "lf_loop g pats ks st = Inr st' \<Longrightarrow> q \<notin> set ks \<Longrightarrow>
     map_of (lockfile st') q = map_of (lockfile st) q"
proof (induction ks arbitrary: st)
  case Nil
  then show ?case by simp
next
  case (Cons p ks)
  from Cons.prems(1) obtain st1 where
    s: "lf_step g pats p st = Inr st1" and l: "lf_loop g pats ks st1 = Inr st'"
    by (rule lf_loop_Cons_Inr)
  from Cons.prems(2) have "q \<noteq> p" "q \<notin> set ks" by auto
  with Cons.IH[OF l] step_lockfile_other[OF s] show ?case by simp
qed

lemma loop_binds:
  "lf_loop g pats ks st = Inr st' \<Longrightarrow> distinct ks \<Longrightarrow> p \<in> set ks \<Longrightarrow> key_of pats p = Some k \<Longrightarrow>
     \<exists>a. seen st' k = Some a \<and> map_of (lockfile st') p = Some a"
proof (induction ks arbitrary: st)
  case Nil
  then show ?case by simp
next
  case (Cons x ks)
  from Cons.prems(1) obtain st1 where
    s: "lf_step g pats x st = Inr st1" and l: "lf_loop g pats ks st1 = Inr st'"
    by (rule lf_loop_Cons_Inr)
  show ?case
  proof (cases "p = x")
    case True
    with step_binds[OF s] Cons.prems(4) obtain a where
      a: "seen st1 k = Some a" "map_of (lockfile st1) p = Some a" by auto
    from Cons.prems(2) True have "p \<notin> set ks" by simp
    with loop_lockfile_other[OF l] loop_seen_mono[OF l a(1)] a(2) show ?thesis by simp
  next
    case False
    with Cons.prems have "distinct ks" "p \<in> set ks" by auto
    from Cons.IH[OF l this Cons.prems(4)] show ?thesis .
  qed
qed

lemma loop_keys:
  "lf_loop g pats ks st = Inr st' \<Longrightarrow> distinct ks \<Longrightarrow> set ks \<inter> fst ` set (lockfile st) = {} \<Longrightarrow>
     map fst (lockfile st') = map fst (lockfile st) @ ks"
proof (induction ks arbitrary: st)
  case Nil
  then show ?case by simp
next
  case (Cons p ks)
  from Cons.prems(1) obtain st1 where
    s: "lf_step g pats p st = Inr st1" and l: "lf_loop g pats ks st1 = Inr st'"
    by (rule lf_loop_Cons_Inr)
  from Cons.prems(3) have fresh: "p \<notin> fst ` set (lockfile st)" by auto
  have k1: "map fst (lockfile st1) = map fst (lockfile st) @ [p]"
    by (rule step_keys[OF s fresh])
  have "set ks \<inter> fst ` set (lockfile st1) = {}"
  proof -
    have "fst ` set (lockfile st1) = set (map fst (lockfile st1))" by simp
    also have "\<dots> = fst ` set (lockfile st) \<union> {p}" using k1 by simp
    finally show ?thesis using Cons.prems(2,3) by auto
  qed
  with Cons.IH[OF l] Cons.prems(2) k1 show ?case by simp
qed

lemma same_but_name_trans:
  "same_but_name a b \<Longrightarrow> same_but_name b c \<Longrightarrow> same_but_name a c"
  by (simp add: same_but_name_def)

lemma loop_same_but_name:
  "lf_loop g pats ks st = Inr st' \<Longrightarrow> a < length (heap st) \<Longrightarrow>
     same_but_name (heap st' ! a) (heap st ! a)"
proof (induction ks arbitrary: st)
  case Nil
  then show ?case by (simp add: same_but_name_def)
next
  case (Cons p ks)
  from Cons.prems(1) obtain st1 where
    s: "lf_step g pats p st = Inr st1" and l: "lf_loop g pats ks st1 = Inr st'"
    by (rule lf_loop_Cons_Inr)
  from step_heap_length[OF s] Cons.prems(2) have "a < length (heap st1)" by simp
  from Cons.IH[OF l this] step_same_but_name[OF s Cons.prems(2)]
  show ?case by (rule same_but_name_trans)
qed

text \<open>
  The name of the entry of a remote key after the rest of the loop, when every later
  pattern of that key whose inferred name is not its package's name has the package
  name \<open>n\<close>.
\<close>

lemma loop_name:
  "lf_loop g pats ks st = Inr st' \<Longrightarrow> wf_state st \<Longrightarrow> seen st k0 = Some a \<Longrightarrow>
   name (heap st ! a) = None \<or> name (heap st ! a) = Some n \<Longrightarrow>
   (\<And>q. q \<in> set ks \<Longrightarrow> key_of pats q = Some k0 \<Longrightarrow> g q \<noteq> pkg_name pats q \<Longrightarrow> pkg_name pats q = n) \<Longrightarrow>
   name (heap st' ! a) =
     (if name (heap st ! a) = Some n \<or> (\<exists>q \<in> set ks. key_of pats q = Some k0 \<and> g q \<noteq> pkg_name pats q)
      then Some n else None)"
proof (induction ks arbitrary: st)
  case Nil
  then show ?case by auto
next
  case (Cons p ks)
  from Cons.prems(1) obtain st1 where
    s: "lf_step g pats p st = Inr st1" and l: "lf_loop g pats ks st1 = Inr st'"
    by (rule lf_loop_Cons_Inr)
  have wf1: "wf_state st1" by (rule step_wf[OF s Cons.prems(2)])
  have seen1: "seen st1 k0 = Some a" by (rule step_seen_mono[OF s Cons.prems(3)])
  have nm1: "name (heap st1 ! a) =
           (if key_of pats p = Some k0 \<and> \<not> truthy (name (heap st ! a)) \<and> g p \<noteq> pkg_name pats p
            then Some (pkg_name pats p) else name (heap st ! a))"
    by (rule step_name[OF s Cons.prems(2,3)])
  have pn: "key_of pats p = Some k0 \<Longrightarrow> g p \<noteq> pkg_name pats p \<Longrightarrow> pkg_name pats p = n"
    using Cons.prems(5)[of p] by simp
  have cases1: "name (heap st1 ! a) = None \<or> name (heap st1 ! a) = Some n"
    using nm1 Cons.prems(4) pn by (auto split: if_splits)
  have rest: "\<And>q. q \<in> set ks \<Longrightarrow> key_of pats q = Some k0 \<Longrightarrow> g q \<noteq> pkg_name pats q \<Longrightarrow> pkg_name pats q = n"
    using Cons.prems(5) by simp
  have IH: "name (heap st' ! a) =
     (if name (heap st1 ! a) = Some n \<or> (\<exists>q \<in> set ks. key_of pats q = Some k0 \<and> g q \<noteq> pkg_name pats q)
      then Some n else None)"
    by (rule Cons.IH[OF l wf1 seen1 cases1 rest])
  have step: "name (heap st1 ! a) = Some n \<longleftrightarrow>
      name (heap st ! a) = Some n \<or> (key_of pats p = Some k0 \<and> g p \<noteq> pkg_name pats p)"
    using nm1 Cons.prems(4) pn by (auto simp: truthy_def split: if_splits)
  show ?case unfolding IH step by auto
qed

lemma step_total:
  "map_of pats p = Some pkg \<Longrightarrow> m_reference pkg \<noteq> None \<Longrightarrow> m_remote pkg \<noteq> None \<Longrightarrow>
     \<exists>st'. lf_step g pats p st = Inr st'"
  by (auto simp: lf_step_def Let_def split: option.splits)

lemma loop_total:
  "(\<And>p. p \<in> set ks \<Longrightarrow> \<exists>pkg. map_of pats p = Some pkg \<and> m_reference pkg \<noteq> None \<and> m_remote pkg \<noteq> None) \<Longrightarrow>
     \<exists>st'. lf_loop g pats ks st = Inr st'"
proof (induction ks arbitrary: st)
  case Nil
  then show ?case by simp
next
  case (Cons p ks)
  from Cons.prems[of p] obtain pkg where
    "map_of pats p = Some pkg" "m_reference pkg \<noteq> None" "m_remote pkg \<noteq> None" by auto
  from step_total[OF this] obtain st1 where s: "lf_step g pats p st = Inr st1" by blast
  from Cons.IH[of st1] Cons.prems obtain st' where "lf_loop g pats ks st1 = Inr st'" by auto
  with s show ?case by simp
qed

lemma wf_init: "wf_state lf_init"
  by (simp add: wf_state_def lf_init_def)

text \<open>The first pattern of a remote key in the order of the loop owns the key's entry.\<close>

lemma loop_owner:
  assumes run: "lf_loop g pats (pre @ p1 # post) lf_init = Inr st'"
    and pre: "\<And>q. q \<in> set pre \<Longrightarrow> key_of pats q \<noteq> Some k0"
    and p1: "map_of pats p1 = Some pkg" "m_remote pkg = Some remote" "m_reference pkg = Some ref"
            "keyForRemote remote = Some k0"
  shows "\<exists>a. seen st' k0 = Some a \<and> a < length (heap st') \<and>
           same_but_name (heap st' ! a) (implodeEntry g p1 (entry_of_pkg pkg remote ref)) \<and>
           (g p1 = m_name pkg \<longrightarrow>
            (\<forall>q \<in> set post. key_of pats q = Some k0 \<longrightarrow> g q \<noteq> pkg_name pats q \<longrightarrow> pkg_name pats q = n) \<longrightarrow>
            name (heap st' ! a) =
              (if \<exists>q \<in> set post. key_of pats q = Some k0 \<and> g q \<noteq> pkg_name pats q then Some n else None))"
proof -
  from run obtain st0 where l0: "lf_loop g pats pre lf_init = Inr st0"
    and l1: "lf_loop g pats (p1 # post) st0 = Inr st'"
    by (auto simp: lf_loop_append split: sum.splits)
  from l1 obtain st1 where s: "lf_step g pats p1 st0 = Inr st1"
    and l2: "lf_loop g pats post st1 = Inr st'"
    by (rule lf_loop_Cons_Inr)
  have wf0: "wf_state st0" by (rule loop_wf[OF l0 wf_init])
  have wf1: "wf_state st1" by (rule step_wf[OF s wf0])
  have none0: "seen st0 k0 = None"
  proof (cases "seen st0 k0")
    case None then show ?thesis .
  next
    case (Some a)
    from loop_seen_origin[OF l0 Some] pre show ?thesis by (auto simp: lf_init_def)
  qed
  define a where "a = length (heap st0)"
  define obj where "obj = implodeEntry g p1 (entry_of_pkg pkg remote ref)"
  have st1: "seen st1 k0 = Some a" "heap st1 ! a = obj" "a < length (heap st1)"
    using s p1 none0 by (auto simp: lf_step_def Let_def a_def obj_def)
  have seen': "seen st' k0 = Some a" by (rule loop_seen_mono[OF l2 st1(1)])
  have len: "a < length (heap st')" using loop_heap_length[OF l2] st1(3) by simp
  have same: "same_but_name (heap st' ! a) obj"
    using loop_same_but_name[OF l2 st1(3)] st1(2) by simp
  have nm: "name (heap st' ! a) =
              (if \<exists>q \<in> set post. key_of pats q = Some k0 \<and> g q \<noteq> pkg_name pats q then Some n else None)"
    if own: "g p1 = m_name pkg"
      and H: "\<forall>q \<in> set post. key_of pats q = Some k0 \<longrightarrow> g q \<noteq> pkg_name pats q \<longrightarrow> pkg_name pats q = n"
  proof -
    have n0: "name (heap st1 ! a) = None"
      using st1(2) own by (simp add: obj_def implodeEntry_def entry_of_pkg_def)
    have "name (heap st' ! a) =
     (if name (heap st1 ! a) = Some n \<or> (\<exists>q \<in> set post. key_of pats q = Some k0 \<and> g q \<noteq> pkg_name pats q)
      then Some n else None)"
      by (rule loop_name[OF l2 wf1 st1(1)]) (use n0 H in auto)
    with n0 show ?thesis by simp
  qed
  from seen' len same nm show ?thesis unfolding obj_def by blast
qed

text \<open>In a sorted list without repetition, what stands before an element is smaller.\<close>

lemma sorted_split_least:
  fixes ks :: "string list"
  assumes "sorted ks" "distinct ks" "p1 \<in> set ks" "\<And>q. q \<in> set ks \<Longrightarrow> P q \<Longrightarrow> p1 \<le> q"
  obtains pre post where "ks = pre @ p1 # post" "\<And>q. q \<in> set pre \<Longrightarrow> \<not> P q"
proof -
  from assms(3) obtain pre post where ks: "ks = pre @ p1 # post" by (auto dest: split_list)
  have "\<not> P q" if "q \<in> set pre" for q
  proof
    assume "P q"
    from that ks have "q \<in> set ks" by simp
    from assms(4)[OF this \<open>P q\<close>] have "p1 \<le> q" .
    moreover from assms(1) ks that have "q \<le> p1" by (auto simp: sorted_append)
    moreover from assms(2) ks that have "q \<noteq> p1" by auto
    ultimately show False by simp
  qed
  with ks show ?thesis by (rule that)
qed

lemma key_of_in_keys: "key_of pats p = Some k \<Longrightarrow> p \<in> set (map fst pats)"
  by (auto simp: key_of_def split: option.splits dest: map_of_SomeD intro: rev_image_eqI)

lemma sorted_keys:
  "sorted (sort_cmp sortAlpha (map fst pats))"
  "set (sort_cmp sortAlpha (map fst pats)) = set (map fst pats)"
  "distinct (map fst pats) \<Longrightarrow> distinct (sort_cmp sortAlpha (map fst pats))"
  by (simp_all add: sort_cmp_sortAlpha)

lemma valid_lookup:
  assumes "\<forall>(p, pkg) \<in> set pats. m_reference pkg \<noteq> None \<and> m_remote pkg \<noteq> None"
    and "p \<in> set (map fst pats)"
  shows "\<exists>pkg. map_of pats p = Some pkg \<and> m_reference pkg \<noteq> None \<and> m_remote pkg \<noteq> None"
proof -
  from assms(2) obtain pkg where "map_of pats p = Some pkg"
    by (metis map_of_eq_None_iff not_Some_eq set_map)
  moreover from this have "(p, pkg) \<in> set pats" by (rule map_of_SomeD)
  ultimately show ?thesis using assms(1) by auto
qed

text \<open>
  C2. Every package record has a reference and a remote, so \<open>getLockfile\<close> returns. Two
  patterns whose remotes have the same key \<open>k\<close> then point to the same address of the
  store: one entry object, shared. If moreover \<open>p1\<close> is the first pattern of that key in
  lexicographic order and its inferred name is its package's name (so the entry was
  built with no name), the inferred name of \<open>p2\<close> is not its package's name, and the
  patterns of that key that need a name agree on the package name, then the shared
  entry's name is that package name.
\<close>

theorem C2_same_key_same_entry:
  assumes dist: "distinct (map fst pats)"
    and valid: "\<forall>(p, pkg) \<in> set pats. m_reference pkg \<noteq> None \<and> m_remote pkg \<noteq> None"
    and k1: "key_of pats p1 = Some k" and k2: "key_of pats p2 = Some k"
  shows "\<exists>lf hp a. getLockfile g pats = Inr (lf, hp) \<and>
           map_of lf p1 = Some a \<and> map_of lf p2 = Some a \<and> a < length hp \<and>
           ((\<forall>q. key_of pats q = Some k \<longrightarrow> p1 \<le> q) \<and>
            g p1 = pkg_name pats p1 \<and> g p2 \<noteq> pkg_name pats p2 \<and>
            (\<forall>q. key_of pats q = Some k \<and> g q \<noteq> pkg_name pats q \<longrightarrow> pkg_name pats q = pkg_name pats p2)
            \<longrightarrow> name (hp ! a) = Some (pkg_name pats p2))"
proof -
  define ks where "ks = sort_cmp sortAlpha (map fst pats)"
  have ks: "sorted ks" "set ks = set (map fst pats)" "distinct ks"
    using sorted_keys[of pats] dist by (simp_all add: ks_def)
  have "\<exists>st'. lf_loop g pats ks lf_init = Inr st'"
    by (rule loop_total) (use valid_lookup[OF valid] ks(2) in auto)
  then obtain st' where run: "lf_loop g pats ks lf_init = Inr st'" ..
  have res: "getLockfile g pats = Inr (lockfile st', heap st')"
    using run by (simp add: getLockfile_def ks_def)
  have in1: "p1 \<in> set ks" and in2: "p2 \<in> set ks"
    using key_of_in_keys[OF k1] key_of_in_keys[OF k2] ks(2) by simp_all
  from loop_binds[OF run ks(3) in1 k1] obtain a where
    a: "seen st' k = Some a" "map_of (lockfile st') p1 = Some a" by blast
  from loop_binds[OF run ks(3) in2 k2] a(1) have a2: "map_of (lockfile st') p2 = Some a" by simp
  have wf: "wf_state st'" by (rule loop_wf[OF run wf_init])
  with a(1) have len: "a < length (heap st')" by (auto simp: wf_state_def)
  have backfill: "name (heap st' ! a) = Some (pkg_name pats p2)"
    if least: "\<forall>q. key_of pats q = Some k \<longrightarrow> p1 \<le> q"
      and own: "g p1 = pkg_name pats p1" and diff: "g p2 \<noteq> pkg_name pats p2"
      and same: "\<forall>q. key_of pats q = Some k \<and> g q \<noteq> pkg_name pats q \<longrightarrow> pkg_name pats q = pkg_name pats p2"
  proof -
    from ks(1) ks(3) in1 obtain pre post where
      split: "ks = pre @ p1 # post" and pre: "\<And>q. q \<in> set pre \<Longrightarrow> \<not> key_of pats q = Some k"
      by (rule sorted_split_least[where P = "\<lambda>q. key_of pats q = Some k"]) (use least in auto)
    from k1 obtain pkg remote where
      p1: "map_of pats p1 = Some pkg" "m_remote pkg = Some remote" "keyForRemote remote = Some k"
      by (auto simp: key_of_def split: option.splits)
    from map_of_SomeD[OF p1(1)] valid have "m_reference pkg \<noteq> None" by auto
    then obtain ref where ref: "m_reference pkg = Some ref" by auto
    from loop_owner[OF run[unfolded split] pre p1(1,2) ref p1(3), of "pkg_name pats p2"]
    obtain b where b: "seen st' k = Some b"
      and nm: "g p1 = m_name pkg \<longrightarrow>
            (\<forall>q \<in> set post. key_of pats q = Some k \<longrightarrow> g q \<noteq> pkg_name pats q \<longrightarrow> pkg_name pats q = pkg_name pats p2) \<longrightarrow>
            name (heap st' ! b) =
              (if \<exists>q \<in> set post. key_of pats q = Some k \<and> g q \<noteq> pkg_name pats q
               then Some (pkg_name pats p2) else None)"
      by blast
    from a(1) b have ba: "b = a" by simp
    have "p2 \<noteq> p1" using own diff by auto
    moreover have "p2 \<notin> set pre" using pre k2 by auto
    ultimately have "p2 \<in> set post" using in2 split by auto
    with k2 diff have ex: "\<exists>q \<in> set post. key_of pats q = Some k \<and> g q \<noteq> pkg_name pats q" by blast
    from own p1(1) have "g p1 = m_name pkg" by (simp add: pkg_name_def)
    with nm same ex show ?thesis unfolding ba by auto
  qed
  from res a(2) a2 len backfill show ?thesis by blast
qed

lemma ev_ab: "getLockfile name_before_at pats_ab = Inr ([(''foo@^1.0.0'', 0), (''my-foo@npm:foo@1'', 0)],
   [\<lparr> name = Some ''foo'', version = ''1.0.0'', uid = None,
      resolved = Some ''https://registry.example/foo-1.0.0.tgz#abc123'', registry = None,
      permissions = None, optionalDependencies = None, peerDependencies = None, dependencies = None\<rparr>])"
  by (simp add: getLockfile_def sortAlpha_def lf_step_def lf_init_def pats_ab_def pkg_foo_def remote_foo_def
      keyForRemote_def truthy_def implodeEntry_def entry_of_pkg_def name_before_at_def blankObjectUndefined_def Let_def)

theorem C2_witness:
  "distinct (map fst pats_ab) \<and>
   key_of pats_ab ''foo@^1.0.0'' = Some ''https://registry.example/foo-1.0.0.tgz#abc123'' \<and>
   key_of pats_ab ''my-foo@npm:foo@1'' = Some ''https://registry.example/foo-1.0.0.tgz#abc123'' \<and>
   name_before_at ''foo@^1.0.0'' = pkg_name pats_ab ''foo@^1.0.0'' \<and>
   name_before_at ''my-foo@npm:foo@1'' \<noteq> pkg_name pats_ab ''my-foo@npm:foo@1'' \<and>
   (\<exists>lf hp a. getLockfile name_before_at pats_ab = Inr (lf, hp) \<and>
       map_of lf ''foo@^1.0.0'' = Some a \<and> map_of lf ''my-foo@npm:foo@1'' = Some a \<and> a < length hp \<and>
       name (hp ! a) = Some ''foo'')"
proof -
  have d: "distinct (map fst pats_ab)" by (simp add: pats_ab_def)
  have v: "\<forall>(p, pkg) \<in> set pats_ab. m_reference pkg \<noteq> None \<and> m_remote pkg \<noteq> None"
    by (simp add: pats_ab_def pkg_foo_def)
  have k1: "key_of pats_ab ''foo@^1.0.0'' = Some ''https://registry.example/foo-1.0.0.tgz#abc123''"
    by (simp add: key_of_def pats_ab_def pkg_foo_def remote_foo_def keyForRemote_def truthy_def)
  have k2: "key_of pats_ab ''my-foo@npm:foo@1'' = Some ''https://registry.example/foo-1.0.0.tgz#abc123''"
    by (simp add: key_of_def pats_ab_def pkg_foo_def remote_foo_def keyForRemote_def truthy_def)
  have n1: "pkg_name pats_ab ''foo@^1.0.0'' = ''foo''" "pkg_name pats_ab ''my-foo@npm:foo@1'' = ''foo''"
    by (simp_all add: pkg_name_def pats_ab_def pkg_foo_def)
  have g1: "name_before_at ''foo@^1.0.0'' = ''foo''" "name_before_at ''my-foo@npm:foo@1'' = ''my-foo''"
    by (simp_all add: name_before_at_def)
  have keys: "key_of pats_ab q = Some k \<Longrightarrow> q = ''foo@^1.0.0'' \<or> q = ''my-foo@npm:foo@1''" for q k
    by (auto simp: key_of_def pats_ab_def split: if_splits)
  have least: "\<forall>q. key_of pats_ab q = Some ''https://registry.example/foo-1.0.0.tgz#abc123'' \<longrightarrow> ''foo@^1.0.0'' \<le> q"
    using keys by fastforce
  have same: "\<forall>q. key_of pats_ab q = Some ''https://registry.example/foo-1.0.0.tgz#abc123'' \<and> name_before_at q \<noteq> pkg_name pats_ab q
          \<longrightarrow> pkg_name pats_ab q = pkg_name pats_ab ''my-foo@npm:foo@1''"
    using keys n1 by fastforce
  from C2_same_key_same_entry[OF d v k1 k2, of name_before_at] least same n1 g1
  show ?thesis using d k1 k2 by auto
qed

lemma lf_step_cong: "map_of ps = map_of qs \<Longrightarrow> lf_step g ps p st = lf_step g qs p st"
  by (simp add: lf_step_def)

lemma lf_loop_cong: "map_of ps = map_of qs \<Longrightarrow> lf_loop g ps ks st = lf_loop g qs ks st"
  by (induction ks arbitrary: st) (simp_all add: lf_step_cong[of ps qs] split: sum.splits)

lemma getLockfile_keys:
  assumes "distinct (map fst ps)" "getLockfile g ps = Inr (lf, hp)"
  shows "map fst lf = sort (map fst ps)"
proof -
  from assms(2) obtain st' where run: "lf_loop g ps (sort (map fst ps)) lf_init = Inr st'"
    and lf: "lf = lockfile st'"
    by (auto simp: getLockfile_def sort_cmp_sortAlpha split: sum.splits)
  have "map fst (lockfile st') = map fst (lockfile lf_init) @ sort (map fst ps)"
    by (rule loop_keys[OF run]) (use assms(1) in \<open>simp_all add: lf_init_def\<close>)
  with lf show ?thesis by (simp add: lf_init_def)
qed

lemma getLockfile_owner:
  assumes dist: "distinct (map fst ps)" and res: "getLockfile g ps = Inr (lf, hp)"
    and p1: "map_of ps p1 = Some pkg" "m_remote pkg = Some remote" "m_reference pkg = Some ref"
            "keyForRemote remote = Some k"
    and least: "\<forall>q. key_of ps q = Some k \<longrightarrow> p1 \<le> q"
  shows "\<exists>a. map_of lf p1 = Some a \<and> a < length hp \<and>
              same_but_name (hp ! a) (implodeEntry g p1 (entry_of_pkg pkg remote ref))"
proof -
  define ks where "ks = sort_cmp sortAlpha (map fst ps)"
  have ks: "sorted ks" "set ks = set (map fst ps)" "distinct ks"
    using sorted_keys[of ps] dist by (simp_all add: ks_def)
  from res obtain st' where run: "lf_loop g ps ks lf_init = Inr st'"
    and lf: "lf = lockfile st'" "hp = heap st'"
    by (auto simp: getLockfile_def ks_def split: sum.splits)
  have k1: "key_of ps p1 = Some k" using p1 by (simp add: key_of_def)
  have in1: "p1 \<in> set ks" using key_of_in_keys[OF k1] ks(2) by simp
  from ks(1) ks(3) in1 obtain pre post where
    split: "ks = pre @ p1 # post" and pre: "\<And>q. q \<in> set pre \<Longrightarrow> \<not> key_of ps q = Some k"
    by (rule sorted_split_least[where P = "\<lambda>q. key_of ps q = Some k"]) (use least in auto)
  from loop_owner[OF run[unfolded split] pre p1(1,2,3,4), of "[]"]
  obtain a where a: "seen st' k = Some a" "a < length (heap st')"
      "same_but_name (heap st' ! a) (implodeEntry g p1 (entry_of_pkg pkg remote ref))"
    by blast
  from loop_binds[OF run ks(3) in1 k1] a(1) have "map_of (lockfile st') p1 = Some a" by simp
  with a lf show ?thesis by blast
qed

text \<open>
  C3. Two objects with the same bindings from patterns to package records, their keys
  inserted in any two orders, give the same result of \<open>getLockfile\<close>: the same error, or
  the same lockfile object with the same key order and the same entries. The keys of the
  lockfile object are the patterns in lexicographic order, and the lexicographically first
  pattern of a remote key points to the entry built from its own package record (up to
  the name, which a later pattern of the key may set).
\<close>

theorem C3_order_independent:
  assumes "distinct (map fst ps)" and "distinct (map fst qs)" and "set ps = set qs"
  shows "getLockfile g ps = getLockfile g qs \<and>
         (\<forall>lf hp. getLockfile g ps = Inr (lf, hp) \<longrightarrow>
            map fst lf = sort (map fst ps) \<and>
            (\<forall>p1 k pkg remote ref.
               map_of ps p1 = Some pkg \<and> m_remote pkg = Some remote \<and> m_reference pkg = Some ref \<and>
               keyForRemote remote = Some k \<and> (\<forall>q. key_of ps q = Some k \<longrightarrow> p1 \<le> q) \<longrightarrow>
               (\<exists>a. map_of lf p1 = Some a \<and> a < length hp \<and>
                    same_but_name (hp ! a) (implodeEntry g p1 (entry_of_pkg pkg remote ref)))))"
proof -
  have m: "map_of ps = map_of qs"
    using assms by (simp add: map_of_inject_set)
  have "set (map fst ps) = set (map fst qs)" using assms(3) by simp
  then have "sort (map fst ps) = sort (map fst qs)"
    using assms(1,2) by (intro sorted_distinct_set_unique) simp_all
  then have "getLockfile g ps = getLockfile g qs"
    by (simp add: getLockfile_def sort_cmp_sortAlpha lf_loop_cong[OF m])
  moreover have "map fst lf = sort (map fst ps)" if "getLockfile g ps = Inr (lf, hp)" for lf hp
    by (rule getLockfile_keys[OF assms(1) that])
  moreover have "\<exists>a. map_of lf p1 = Some a \<and> a < length hp \<and>
                    same_but_name (hp ! a) (implodeEntry g p1 (entry_of_pkg pkg remote ref))"
    if "getLockfile g ps = Inr (lf, hp)" "map_of ps p1 = Some pkg" "m_remote pkg = Some remote"
       "m_reference pkg = Some ref" "keyForRemote remote = Some k" "\<forall>q. key_of ps q = Some k \<longrightarrow> p1 \<le> q"
    for lf hp p1 k pkg remote ref
    by (rule getLockfile_owner[OF assms(1) that])
  ultimately show ?thesis by blast
qed

lemma ev_ba: "getLockfile name_before_at pats_ba = Inr ([(''foo@^1.0.0'', 0), (''my-foo@npm:foo@1'', 0)],
   [\<lparr> name = Some ''foo'', version = ''1.0.0'', uid = None,
      resolved = Some ''https://registry.example/foo-1.0.0.tgz#abc123'', registry = None,
      permissions = None, optionalDependencies = None, peerDependencies = None, dependencies = None\<rparr>])"
  by (simp add: getLockfile_def sortAlpha_def lf_step_def lf_init_def pats_ba_def pkg_foo_def remote_foo_def
      keyForRemote_def truthy_def implodeEntry_def entry_of_pkg_def name_before_at_def blankObjectUndefined_def Let_def)

theorem C3_witness:
  "distinct (map fst pats_ab) \<and> distinct (map fst pats_ba) \<and> set pats_ab = set pats_ba \<and>
   pats_ab \<noteq> pats_ba \<and>
   getLockfile name_before_at pats_ab = getLockfile name_before_at pats_ba \<and>
   getLockfile name_before_at pats_ba = Inr ([(''foo@^1.0.0'', 0), (''my-foo@npm:foo@1'', 0)],
     [\<lparr> name = Some ''foo'', version = ''1.0.0'', uid = None,
        resolved = Some ''https://registry.example/foo-1.0.0.tgz#abc123'', registry = None,
        permissions = None, optionalDependencies = None, peerDependencies = None,
        dependencies = None\<rparr>])"
proof -
  have d: "distinct (map fst pats_ab)" "distinct (map fst pats_ba)" "set pats_ab = set pats_ba"
    by (auto simp: pats_ab_def pats_ba_def)
  have ne: "pats_ab \<noteq> pats_ba" by (simp add: pats_ab_def pats_ba_def)
  from C3_order_independent[OF d, of name_before_at]
  have "getLockfile name_before_at pats_ab = getLockfile name_before_at pats_ba" by blast
  with d ne ev_ba show ?thesis by simp
qed

section \<open>Lookup through aliases\<close>

lemma chain_to_getLocked:
  "chain_to c p q \<Longrightarrow> getLocked g (Some c) p = Some (locked_at g c q)"
proof (induction rule: chain_to.induct)
  case (chain_absent c p)
  then show ?case by (subst getLocked.simps) (simp add: locked_at_def)
next
  case (chain_entry c p e)
  then show ?case by (subst getLocked.simps) (simp add: locked_at_def)
next
  case (chain_alias c p s q)
  then show ?case by (subst getLocked.simps) simp
qed

lemma getLocked_chain_aux:
  assumes "getLocked g cache p = Some r"
  shows "\<forall>c. cache = Some c \<longrightarrow> (\<exists>q. chain_to c p q)"
proof (rule getLocked.raw_induct
    [where P = "\<lambda>g cache p r. \<forall>c. cache = Some c \<longrightarrow> (\<exists>q. chain_to c p q)", OF _ assms])
  fix rec :: "(string \<Rightarrow> string) \<Rightarrow> (string \<rightharpoonup> cache_value) option \<Rightarrow> string \<Rightarrow>
     (LockManifest option \<times> (string \<rightharpoonup> cache_value) option) option"
  fix g cache p r
  assume IH: "\<And>g cache p r. rec g cache p = Some r \<Longrightarrow>
                 \<forall>c. cache = Some c \<longrightarrow> (\<exists>q. chain_to c p q)"
  assume body: "(case cache of None \<Rightarrow> Some (None, cache)
      | Some c \<Rightarrow>
          case c p of None \<Rightarrow> Some (None, cache)
          | Some (Alias shrunk) \<Rightarrow> rec g cache shrunk
          | Some (Entry shrunk) \<Rightarrow>
              Some (Some (explodeEntry g p shrunk),
                Some (c(p \<mapsto> Entry (explodeEntry g p shrunk))))) = Some r"
  show "\<forall>c. cache = Some c \<longrightarrow> (\<exists>q. chain_to c p q)"
  proof (intro allI impI)
    fix c assume c: "cache = Some c"
    show "\<exists>q. chain_to c p q"
    proof (cases "c p")
      case None
      then show ?thesis by (blast intro: chain_absent)
    next
      case (Some v)
      show ?thesis
      proof (cases v)
        case (Alias s)
        with Some c body have "rec g cache s = Some r" by simp
        from IH[OF this] c obtain q where "chain_to c s q" by blast
        with Some Alias show ?thesis by (blast intro: chain_alias)
      next
        case (Entry e)
        with Some show ?thesis by (blast intro: chain_entry)
      qed
    qed
  qed
qed

lemma cyclic_no_end:
  "chain_to c p q \<Longrightarrow> c = cyclic_cache \<Longrightarrow> p = ''a@1'' \<or> p = ''b@1'' \<Longrightarrow> False"
  by (induction rule: chain_to.induct) (auto simp: cyclic_cache_def split: if_splits)

text \<open>
  C4, as claimed: \<open>getLocked\<close> returns for every cache and pattern, also on a cycle of
  aliases. On the cache where \<open>a@1\<close> and \<open>b@1\<close> stand for each other the call at \<open>a@1\<close>
  does not return: \<open>getLocked\<close> has no bound on the chain and no record of the patterns
  it has visited.
\<close>

theorem C4_cycle_never_returns: "getLocked name_before_at (Some cyclic_cache) ''a@1'' = None"
proof (cases "getLocked name_before_at (Some cyclic_cache) ''a@1''")
  case None
  then show ?thesis .
next
  case (Some r)
  from getLocked_chain_aux[OF this] obtain q where "chain_to cyclic_cache ''a@1'' q" by blast
  from cyclic_no_end[OF this refl] show ?thesis by simp
qed

lemma alias_cache_chain: "chain_to alias_cache ''a@1'' ''b@1''"
  by (rule chain_alias[where s="''b@1''"], simp add: alias_cache_def, rule chain_entry, simp add: alias_cache_def)

text \<open>
  C4, as the code has it: without a cache the result is \<open>undefined\<close>; with a cache,
  \<open>getLocked\<close> returns exactly when the alias chain from the pattern ends, and then it
  returns what is stored at the pattern \<open>q\<close> that ends the chain: the entry, exploded for
  \<open>q\<close>, or \<open>undefined\<close> when \<open>q\<close> has no value.
\<close>

theorem C4_returns_iff_chain_ends:
  "getLocked g None p = Some (None, None) \<and>
   ((\<exists>r. getLocked g (Some c) p = Some r) \<longleftrightarrow> (\<exists>q. chain_to c p q)) \<and>
   (chain_to c p q \<longrightarrow> getLocked g (Some c) p = Some (locked_at g c q))"
proof -
  have "getLocked g None p = Some (None, None)"
    by (subst getLocked.simps) simp
  moreover have "(\<exists>r. getLocked g (Some c) p = Some r) \<longleftrightarrow> (\<exists>q. chain_to c p q)"
    using getLocked_chain_aux[of g "Some c" p] chain_to_getLocked[of c p _ g] by blast
  ultimately show ?thesis using chain_to_getLocked[of c p q g] by blast
qed

theorem C4_returns_witness:
  "chain_to alias_cache ''a@1'' ''b@1'' \<and>
   (\<exists>c'. getLocked name_before_at (Some alias_cache) ''a@1'' =
      Some (Some \<lparr> name = Some ''b'', version = ''1.0.0'', uid = Some ''1.0.0'',
                   resolved = Some ''https://registry.example/b-1.0.0.tgz'',
                   registry = Some ''npm'', permissions = Some [],
                   optionalDependencies = Some [], peerDependencies = None,
                   dependencies = Some [] \<rparr>, c'))"
proof -
  have "getLocked name_before_at (Some alias_cache) ''a@1'' =
          Some (locked_at name_before_at alias_cache ''b@1'')"
    using C4_returns_iff_chain_ends[of name_before_at "''a@1''" alias_cache "''b@1''"]
      alias_cache_chain by blast
  then show ?thesis
    using alias_cache_chain
    by (simp add: locked_at_def alias_cache_def explodeEntry_def str_or_def obj_or_empty_def
        name_before_at_def)
qed

section \<open>Parsing resolved references\<close>

lemma indexOf_char:
  "c \<notin> set xs \<Longrightarrow> indexOf (xs @ c # ys) [c] = Some (length xs)"
  by (induction xs) auto

lemma lastIndexOf_char_None:
  "c \<notin> set ys \<Longrightarrow> lastIndexOf ys [c] = None"
  by (induction ys) auto

lemma lastIndexOf_char:
  "c \<notin> set ys \<Longrightarrow> lastIndexOf (xs @ c # ys) [c] = Some (length xs)"
  by (induction xs) (auto simp: lastIndexOf_char_None)

lemma tgz_no_overlap:
  "take 4 cs \<noteq> ''.tgz'' \<Longrightarrow> cs \<noteq> [] \<Longrightarrow> take 4 (cs @ ''.tgz'') \<noteq> ''.tgz''"
proof (cases cs)
  case Nil
  assume "cs \<noteq> []" with Nil show ?thesis by simp
next
  case (Cons a r1)
  assume h: "take 4 cs \<noteq> ''.tgz''"
  show ?thesis
  proof (cases r1)
    case Nil with Cons show ?thesis by auto
  next
    case (Cons b r2)
    note c2 = Cons
    show ?thesis
    proof (cases r2)
      case Nil with \<open>cs = a # r1\<close> c2 show ?thesis by auto
    next
      case (Cons c r3)
      note c3 = Cons
      show ?thesis
      proof (cases r3)
        case Nil with \<open>cs = a # r1\<close> c2 c3 show ?thesis by auto
      next
        case (Cons d r4)
        with \<open>cs = a # r1\<close> c2 c3 h show ?thesis by auto
      qed
    qed
  qed
qed

lemma indexOf_tgz:
  "indexOf u ''.tgz'' = None \<Longrightarrow> indexOf (u @ ''.tgz'') ''.tgz'' = Some (length u)"
proof (induction u)
  case Nil
  then show ?case by simp
next
  case (Cons c cs)
  from Cons.prems have t: "take 4 (c # cs) \<noteq> ''.tgz''" and r: "indexOf cs ''.tgz'' = None"
    by (auto split: if_splits simp: eval_nat_numeral)
  from tgz_no_overlap[OF t] have "take 4 ((c # cs) @ ''.tgz'') \<noteq> ''.tgz''" by simp
  then have "take (length ''.tgz'') ((c # cs) @ ''.tgz'') \<noteq> ''.tgz''"
    by (simp add: eval_nat_numeral)
  with Cons.IH[OF r] show ?case by (simp del: take_Suc_Cons add: eval_nat_numeral)
qed

text \<open>
  C9, as the code has it: the resolved string built from a scope, a name, a version and
  a uid parses back to exactly those parts when the scope has no \<open>/\<close>, the name has no
  \<open>@\<close> (and is not empty when there is no scope), and the uid has no \<open>-\<close> and does not
  contain \<open>.tgz\<close>. The version may be any text, also one with \<open>-\<close> in it.
\<close>

theorem C9_roundtrip:
  assumes "case scope of Some s \<Rightarrow> CHR ''/'' \<notin> set s | None \<Rightarrow> nm \<noteq> []"
    and "CHR ''@'' \<notin> set nm"
    and "CHR ''-'' \<notin> set u"
    and "indexOf u ''.tgz'' = None"
  shows "parseReference (resolvedString (fullNameOf scope nm) ver u) =
           Inr \<lparr> opr_fullName = fullNameOf scope nm, opr_name = nm, opr_scope = scope,
                 opr_version = ver, opr_uid = u \<rparr>"
proof -
  have rest: "indexOf (nm @ ''@'' @ ver @ ''-'' @ u @ ''.tgz'') ''@'' = Some (length nm)"
    using indexOf_char[OF assms(2), of "ver @ ''-'' @ u @ ''.tgz''"] by simp
  have "CHR ''-'' \<notin> set (u @ ''.tgz'')" using assms(3) by simp
  from lastIndexOf_char[OF this, of ver]
  have dash: "lastIndexOf (ver @ ''-'' @ u @ ''.tgz'') ''-'' = Some (length ver)" by simp
  note tgz = indexOf_tgz[OF assms(4)]
  show ?thesis
  proof (cases scope)
    case None
    with assms(1,2) obtain c cs where nm: "nm = c # cs" "c \<noteq> CHR ''@''"
      by (cases nm) auto
    have "parseReference (nm @ ''@'' @ ver @ ''-'' @ u @ ''.tgz'') =
           Inr \<lparr> opr_fullName = nm, opr_name = nm, opr_scope = None,
                 opr_version = ver, opr_uid = u \<rparr>"
      unfolding parseReference_def
      using nm rest dash tgz
      by (simp add: slice_def slice_from_def Let_def)
    with None show ?thesis by (simp add: resolvedString_def fullNameOf_def)
  next
    case (Some s)
    with assms(1) have s: "CHR ''/'' \<notin> set s" by simp
    have "CHR ''/'' \<notin> set (CHR ''@'' # s)" using s by simp
    from indexOf_char[OF this, of "nm @ ''@'' @ ver @ ''-'' @ u @ ''.tgz''"]
    have slash: "indexOf (''@'' @ s @ ''/'' @ nm @ ''@'' @ ver @ ''-'' @ u @ ''.tgz'') ''/'' = Some (Suc (length s))"
      by simp
    have "parseReference (''@'' @ s @ ''/'' @ nm @ ''@'' @ ver @ ''-'' @ u @ ''.tgz'') =
           Inr \<lparr> opr_fullName = ''@'' @ s @ ''/'' @ nm, opr_name = nm, opr_scope = Some s,
                 opr_version = ver, opr_uid = u \<rparr>"
      unfolding parseReference_def
      using slash rest dash tgz
      by (simp add: slice_def slice_from_def Let_def)
    with Some show ?thesis by (simp add: resolvedString_def fullNameOf_def)
  qed
qed

text \<open>
  C9, as claimed: the round trip holds for every uid. With the uid \<open>a-b\<close> the last \<open>-\<close> of
  the string is inside the uid, and \<open>parseReference\<close> returns the version \<open>1.2.3-a\<close> and the
  uid \<open>b\<close>.
\<close>

theorem C9_uid_with_dash_is_split:
  "resolvedString (fullNameOf None ''foo'') ''1.2.3'' ''a-b'' = ''foo@1.2.3-a-b.tgz'' \<and>
   parseReference (resolvedString (fullNameOf None ''foo'') ''1.2.3'' ''a-b'') =
     Inr \<lparr> opr_fullName = ''foo'', opr_name = ''foo'', opr_scope = None,
           opr_version = ''1.2.3-a'', opr_uid = ''b'' \<rparr> \<and>
   parseReference (resolvedString (fullNameOf None ''foo'') ''1.2.3'' ''a-b'') \<noteq>
     Inr \<lparr> opr_fullName = ''foo'', opr_name = ''foo'', opr_scope = None,
           opr_version = ''1.2.3'', opr_uid = ''a-b'' \<rparr>"
  by (simp add: parseReference_def resolvedString_def fullNameOf_def slice_def slice_from_def Let_def)

theorem C9_witness:
  "resolvedString (fullNameOf (Some ''scope'') ''foo'') ''1.2.3'' ''abc'' = ''@scope/foo@1.2.3-abc.tgz'' \<and>
   parseReference ''@scope/foo@1.2.3-abc.tgz'' =
     Inr \<lparr> opr_fullName = ''@scope/foo'', opr_name = ''foo'', opr_scope = Some ''scope'',
           opr_version = ''1.2.3'', opr_uid = ''abc'' \<rparr> \<and>
   parseReference (resolvedString (fullNameOf None ''foo'') ''1.2.3-rc.1'' ''abc'') =
     Inr \<lparr> opr_fullName = ''foo'', opr_name = ''foo'', opr_scope = None,
           opr_version = ''1.2.3-rc.1'', opr_uid = ''abc'' \<rparr>"
proof -
  have s: "resolvedString (fullNameOf (Some ''scope'') ''foo'') ''1.2.3'' ''abc'' = ''@scope/foo@1.2.3-abc.tgz''"
    by (simp add: resolvedString_def fullNameOf_def)
  have a: "parseReference (resolvedString (fullNameOf (Some ''scope'') ''foo'') ''1.2.3'' ''abc'') =
     Inr \<lparr> opr_fullName = fullNameOf (Some ''scope'') ''foo'', opr_name = ''foo'',
           opr_scope = Some ''scope'', opr_version = ''1.2.3'', opr_uid = ''abc'' \<rparr>"
    by (rule C9_roundtrip) (simp_all add: eval_nat_numeral)
  have b: "parseReference (resolvedString (fullNameOf None ''foo'') ''1.2.3-rc.1'' ''abc'') =
     Inr \<lparr> opr_fullName = fullNameOf None ''foo'', opr_name = ''foo'',
           opr_scope = None, opr_version = ''1.2.3-rc.1'', opr_uid = ''abc'' \<rparr>"
    by (rule C9_roundtrip) (simp_all add: eval_nat_numeral)
  from a b s show ?thesis by (simp add: fullNameOf_def)
qed

section \<open>Solving version constraints\<close>

lemma map_throwing_Inr:
  "(\<And>x. x \<in> set xs \<Longrightarrow> f x = Inr (h x)) \<Longrightarrow> map_throwing f xs = Inr (map h xs)"
  by (induction xs) auto

lemma set_insort_cmp: "set (insort_cmp c x ys) = insert x (set ys)"
  by (induction ys) auto

lemma set_sort_cmp: "set (sort_cmp c xs) = set xs"
  by (induction xs) (auto simp: set_insort_cmp)

lemma sorted_insort_cmp:
  assumes tot: "\<And>a b. c a b \<le> 0 \<or> c b a \<le> 0"
    and trans: "\<And>a b d. c a b \<le> 0 \<Longrightarrow> c b d \<le> 0 \<Longrightarrow> c a d \<le> 0"
  shows "sorted_wrt (\<lambda>a b. c a b \<le> 0) ys \<Longrightarrow> sorted_wrt (\<lambda>a b. c a b \<le> 0) (insort_cmp c x ys)"
proof (induction ys)
  case Nil
  then show ?case by simp
next
  case (Cons y ys)
  show ?case
  proof (cases "c x y \<le> 0")
    case True
    with Cons.prems trans show ?thesis by auto
  next
    case False
    with tot[of x y] have "c y x \<le> 0" by simp
    with False Cons show ?thesis by (auto simp: set_insort_cmp)
  qed
qed

lemma sorted_sort_cmp:
  assumes "\<And>a b. c a b \<le> 0 \<or> c b a \<le> 0"
    and "\<And>a b d. c a b \<le> 0 \<Longrightarrow> c b d \<le> 0 \<Longrightarrow> c a d \<le> 0"
  shows "sorted_wrt (\<lambda>a b. c a b \<le> 0) (sort_cmp c xs)"
  by (induction xs) (simp_all add: sorted_insort_cmp[OF assms])

text \<open>The first element that passes a test, in a list sorted by a total preorder, is before every other that passes.\<close>

lemma find_sorted_first:
  assumes "sorted_wrt R xs" "\<And>a. R a a" "find P xs = Some x" "y \<in> set xs" "P y"
  shows "R x y"
proof -
  from assms(3) obtain i where i: "i < length xs" "xs ! i = x" "\<forall>j<i. \<not> P (xs ! j)"
    by (auto simp: find_Some_iff)
  from assms(4) obtain j where j: "j < length xs" "xs ! j = y" by (auto simp: in_set_conv_nth)
  from i(3) j(2) assms(5) have "\<not> j < i" by auto
  then have "i = j \<or> i < j" by auto
  then show ?thesis
  proof
    assume "i = j" with i j assms(2) show ?thesis by simp
  next
    assume "i < j"
    from sorted_wrt_nth_less[OF assms(1) this j(1)] i j show ?thesis by simp
  qed
qed

lemma parse_candidate_ok:
  assumes "semver_parse lib v \<noteq> None" "v \<in> set (map fst ms)"
  shows "parse_candidate lib n ms rng v = Inr (candidate lib ms rng v)"
proof -
  from assms(2) obtain m where "map_of ms v = Some m"
    by (metis map_of_eq_None_iff not_Some_eq set_map)
  with assms(1) show ?thesis
    by (auto simp: parse_candidate_def candidate_def opam_of_def)
qed

lemma candidate_fields:
  "raw (candidate lib ms rng v) = v"
  "opamVersion (candidate lib ms rng v) = opam_of ms v"
  by (auto simp: candidate_def split: option.splits)

lemma range_ok_candidate:
  assumes "semver_parse lib v \<noteq> None" "v \<in> set (map fst ms)"
  shows "range_ok lib n ms rng v \<longleftrightarrow> semver_satisfies lib (candidate lib ms rng v) rng"
  by (simp add: range_ok_def parse_candidate_ok[OF assms])

lemma findVersion_eq:
  assumes "\<And>v. v \<in> set vs \<Longrightarrow> semver_parse lib v \<noteq> None" "set vs \<subseteq> set (map fst ms)"
  shows "findVersion lib n ms vs rng =
           Inr (case find (\<lambda>c. semver_satisfies lib c rng)
                        (sort_cmp (opam_order lib) (map (candidate lib ms rng) vs)) of
                  Some c \<Rightarrow> Some (Found (raw c)) | None \<Rightarrow> None)"
proof -
  have "map_throwing (parse_candidate lib n ms rng) vs = Inr (map (candidate lib ms rng) vs)"
    by (rule map_throwing_Inr) (use assms in \<open>auto intro!: parse_candidate_ok\<close>)
  then show ?thesis by (simp add: findVersion_def)
qed

lemma findVersion_None:
  assumes "\<And>v. v \<in> set vs \<Longrightarrow> semver_parse lib v \<noteq> None" "set vs \<subseteq> set (map fst ms)"
    and "\<forall>v \<in> set vs. \<not> range_ok lib n ms rng v"
  shows "findVersion lib n ms vs rng = Inr None"
proof -
  have rk: "range_ok lib n ms rng v \<longleftrightarrow> semver_satisfies lib (candidate lib ms rng v) rng"
    if "v \<in> set vs" for v
    by (rule range_ok_candidate[OF assms(1)[OF that]]) (use assms(2) that in blast)
  have "find (\<lambda>c. semver_satisfies lib c rng)
          (sort_cmp (opam_order lib) (map (candidate lib ms rng) vs)) = None"
    using assms(3) rk by (auto simp: find_None_iff set_sort_cmp)
  then show ?thesis by (simp add: findVersion_eq[OF assms(1,2)])
qed

lemma findVersion_Some:
  assumes "\<And>v. v \<in> set vs \<Longrightarrow> semver_parse lib v \<noteq> None" "set vs \<subseteq> set (map fst ms)"
    and "\<exists>v \<in> set vs. range_ok lib n ms rng v"
  shows "\<exists>v \<in> set vs. range_ok lib n ms rng v \<and> findVersion lib n ms vs rng = Inr (Some (Found v))"
proof -
  let ?xs = "sort_cmp (opam_order lib) (map (candidate lib ms rng) vs)"
  from assms(3) obtain w where w: "w \<in> set vs" "range_ok lib n ms rng w" by blast
  then have "semver_satisfies lib (candidate lib ms rng w) rng"
    using range_ok_candidate[of lib w ms n rng] assms(1,2) by auto
  with w(1) have "\<exists>c \<in> set ?xs. semver_satisfies lib c rng"
    by (auto simp: set_sort_cmp)
  then obtain c where c: "find (\<lambda>c. semver_satisfies lib c rng) ?xs = Some c"
    by (cases "find (\<lambda>c. semver_satisfies lib c rng) ?xs") (auto simp: find_None_iff)
  then have "c \<in> set ?xs" "semver_satisfies lib c rng"
    by (auto simp: find_Some_iff)
  then obtain v where v: "v \<in> set vs" "c = candidate lib ms rng v"
    by (auto simp: set_sort_cmp)
  with \<open>semver_satisfies lib c rng\<close> have "range_ok lib n ms rng v"
    using range_ok_candidate[of lib v ms n rng] assms(1,2) by auto
  moreover have "findVersion lib n ms vs rng = Inr (Some (Found v))"
    using c v by (simp add: findVersion_eq[OF assms(1,2)] candidate_fields)
  ultimately show ?thesis using v(1) by blast
qed

lemma findVersion_best:
  assumes "\<And>v. v \<in> set vs \<Longrightarrow> semver_parse lib v \<noteq> None" "set vs \<subseteq> set (map fst ms)"
    and tot: "\<And>a b. 0 \<le> versionCompare lib a b \<or> 0 \<le> versionCompare lib b a"
    and trans: "\<And>a b c. 0 \<le> versionCompare lib a b \<Longrightarrow> 0 \<le> versionCompare lib b c \<Longrightarrow> 0 \<le> versionCompare lib a c"
    and res: "findVersion lib n ms vs rng = Inr (Some (Found v))"
    and w: "w \<in> set vs" "range_ok lib n ms rng w"
  shows "0 \<le> versionCompare lib (opam_of ms v) (opam_of ms w)"
proof -
  let ?xs = "sort_cmp (opam_order lib) (map (candidate lib ms rng) vs)"
  let ?R = "\<lambda>a b. opam_order lib a b \<le> 0"
  have sorted: "sorted_wrt ?R ?xs"
    by (rule sorted_sort_cmp) (use tot trans in \<open>auto simp: opam_order_def\<close>)
  have refl: "?R a a" for a using tot[of "opamVersion a" "opamVersion a"] by (simp add: opam_order_def)
  from res obtain c where c: "find (\<lambda>c. semver_satisfies lib c rng) ?xs = Some c" "raw c = v"
    by (auto simp: findVersion_eq[OF assms(1,2)] split: option.splits)
  then have "c \<in> set ?xs" by (auto simp: find_Some_iff)
  then obtain v' where "v' \<in> set vs" "c = candidate lib ms rng v'" by (auto simp: set_sort_cmp)
  with c(2) have cv: "c = candidate lib ms rng v" by (simp add: candidate_fields)
  have "candidate lib ms rng w \<in> set ?xs" using w(1) by (simp add: set_sort_cmp)
  moreover have "semver_satisfies lib (candidate lib ms rng w) rng"
    using w range_ok_candidate[of lib w ms n rng] assms(1,2) by auto
  ultimately have "?R c (candidate lib ms rng w)"
    using find_sorted_first[OF sorted refl c(1)] by blast
  then show ?thesis by (simp add: opam_order_def cv candidate_fields)
qed

lemma eligible_subset: "set (eligible lib ms ov) \<subseteq> set (map fst ms)"
  by (auto simp: eligible_def)

lemma filter_throwing_Inr:
  "(\<And>x. x \<in> set xs \<Longrightarrow> \<exists>ok. f x = Inr ok) \<Longrightarrow>
     filter_throwing f xs = Inr (filter (\<lambda>x. f x = Inr True) xs)"
proof (induction xs)
  case Nil
  then show ?case by simp
next
  case (Cons x xs)
  from Cons.prems[of x] obtain ok where ok: "f x = Inr ok" by auto
  have "filter_throwing f xs = Inr (filter (\<lambda>x. f x = Inr True) xs)"
    by (rule Cons.IH) (use Cons.prems in auto)
  with ok show ?case by simp
qed

lemma map_throwing_Inl:
  "x \<in> set xs \<Longrightarrow> f x = Inl e \<Longrightarrow> \<exists>y \<in> set xs. \<exists>e'. f y = Inl e' \<and> map_throwing f xs = Inl e'"
proof (induction xs)
  case Nil
  then show ?case by simp
next
  case (Cons a xs)
  show ?case
  proof (cases "f a")
    case (Inl e')
    then show ?thesis by auto
  next
    case (Inr b)
    with Cons.prems have "x \<in> set xs" by auto
    from Cons.IH[OF this Cons.prems(2)] obtain y e' where
      "y \<in> set xs" "f y = Inl e'" "map_throwing f xs = Inl e'" by blast
    with Inr show ?thesis by auto
  qed
qed

lemma parse_candidate_Inl:
  assumes "parse_candidate lib n ms rng v = Inl e" "v \<in> set (map fst ms)"
  shows "e = InvalidVersion n v"
proof -
  from assms(2) obtain m where "map_of ms v = Some m"
    by (metis map_of_eq_None_iff not_Some_eq set_map)
  with assms(1) show ?thesis
    by (auto simp: parse_candidate_def split: option.splits)
qed

text \<open>A candidate that does not parse makes \<open>findVersion\<close> fail its invariant.\<close>

lemma findVersion_throws:
  assumes "v \<in> set vs" "semver_parse lib v = None" "set vs \<subseteq> set (map fst ms)"
  shows "\<exists>w. findVersion lib n ms vs rng = Inl (InvalidVersion n w)"
proof -
  have "parse_candidate lib n ms rng v = Inl (InvalidVersion n v)"
    using assms(2) by (simp add: parse_candidate_def)
  from map_throwing_Inl[where f = "parse_candidate lib n ms rng" and x = v, OF assms(1) this]
  obtain y e' where
    y: "y \<in> set vs" "parse_candidate lib n ms rng y = Inl e'"
       "map_throwing (parse_candidate lib n ms rng) vs = Inl e'" by blast
  from parse_candidate_Inl[OF y(2)] y(1) assms(3) have "e' = InvalidVersion n y" by blast
  with y(3) show ?thesis by (simp add: findVersion_def)
qed

lemma solve_with_ocaml:
  assumes "ocaml_version_accepted lib ms ov"
  shows "solveVersionConstraint lib n ms rng (Some ov) =
      (case findVersion lib n ms (eligible lib ms ov) rng of
           Inl e \<Rightarrow> Inl e
         | Inr (Some solution) \<Rightarrow> Inr solution
         | Inr None \<Rightarrow>
                  (case findVersion lib n ms (map fst ms) rng of
                     Inl e \<Rightarrow> Inl e
                   | Inr (Some s) \<Rightarrow> Inr NoVersionFoundForOcamlConstraint
                   | Inr None \<Rightarrow> Inr NoVersionFound))"
proof -
  have ok: "\<exists>ok. availableForOCamlVersion lib ms ov x = Inr ok" if "x \<in> set (map fst ms)" for x
  proof (cases "availableForOCamlVersion lib ms ov x")
    case (Inl e)
    with assms that show ?thesis
      unfolding ocaml_version_accepted_def list_all_iff by fastforce
  next
    case (Inr b)
    then show ?thesis by blast
  qed
  have "filter_throwing (availableForOCamlVersion lib ms ov) (map fst ms) = Inr (eligible lib ms ov)"
    unfolding eligible_def by (rule filter_throwing_Inr) (rule ok)
  then show ?thesis
    by (simp add: solveVersionConstraint_def Let_def split: sum.splits option.splits)
qed

text \<open>
  C5, as the code has it: an ocaml version is given and \<open>semver.satisfies\<close> returns for it
  on every manifest of the collection. When every eligible version parses and some
  eligible version passes the range test, the outcome is \<open>found\<close> with an eligible version
  that passes it. When every version of the collection parses, the outcome is
  \<open>no-version-found-for-ocaml-constraint\<close> if no eligible version passes the test and some
  version does, and \<open>no-version-found\<close> if no version passes it. When a version that
  \<open>findVersion\<close> is given does not parse (an eligible one, or any one once no eligible
  version passes the test), the call throws the \<open>Invalid version\<close> invariant and there is
  no outcome.
\<close>

theorem C5_three_outcomes:
  assumes "ocaml_version_accepted lib ms ov"
  shows "(all_parse lib (eligible lib ms ov) \<and>
          (\<exists>v \<in> set (eligible lib ms ov). range_ok lib n ms rng v) \<longrightarrow>
            (\<exists>v \<in> set (eligible lib ms ov). range_ok lib n ms rng v \<and>
               solveVersionConstraint lib n ms rng (Some ov) = Inr (Found v))) \<and>
         (all_parse lib (map fst ms) \<and>
          \<not> (\<exists>v \<in> set (eligible lib ms ov). range_ok lib n ms rng v) \<and>
          (\<exists>v \<in> set (map fst ms). range_ok lib n ms rng v) \<longrightarrow>
            solveVersionConstraint lib n ms rng (Some ov) = Inr NoVersionFoundForOcamlConstraint) \<and>
         (all_parse lib (map fst ms) \<and>
          \<not> (\<exists>v \<in> set (map fst ms). range_ok lib n ms rng v) \<longrightarrow>
            solveVersionConstraint lib n ms rng (Some ov) = Inr NoVersionFound) \<and>
         (\<not> all_parse lib (eligible lib ms ov) \<longrightarrow>
            (\<exists>v. solveVersionConstraint lib n ms rng (Some ov) = Inl (InvalidVersion n v))) \<and>
         (all_parse lib (eligible lib ms ov) \<and>
          \<not> (\<exists>v \<in> set (eligible lib ms ov). range_ok lib n ms rng v) \<and>
          \<not> all_parse lib (map fst ms) \<longrightarrow>
            (\<exists>v. solveVersionConstraint lib n ms rng (Some ov) = Inl (InvalidVersion n v)))"
proof -
  note sub = eligible_subset[of lib ms ov]
  note unfold = solve_with_ocaml[OF assms, of n rng]
  have pe: "semver_parse lib v \<noteq> None"
    if "all_parse lib (eligible lib ms ov)" "v \<in> set (eligible lib ms ov)" for v
    using that by (auto simp: all_parse_def list_all_iff)
  have pa: "semver_parse lib v \<noteq> None"
    if "all_parse lib (map fst ms)" "v \<in> set (map fst ms)" for v
    using that by (auto simp: all_parse_def list_all_iff)
  have none_elig: "findVersion lib n ms (eligible lib ms ov) rng = Inr None"
    if "all_parse lib (eligible lib ms ov)"
       "\<not> (\<exists>v \<in> set (eligible lib ms ov). range_ok lib n ms rng v)"
    by (rule findVersion_None[OF pe[OF that(1)] sub]) (use that(2) in auto)
  have found: "\<exists>v \<in> set (eligible lib ms ov). range_ok lib n ms rng v \<and>
               solveVersionConstraint lib n ms rng (Some ov) = Inr (Found v)"
    if "all_parse lib (eligible lib ms ov)"
       "\<exists>v \<in> set (eligible lib ms ov). range_ok lib n ms rng v"
    using findVersion_Some[OF pe[OF that(1)] sub that(2)] by (auto simp: unfold)
  have all_elig: "all_parse lib (eligible lib ms ov)" if "all_parse lib (map fst ms)"
    using that sub by (auto simp: all_parse_def list_all_iff)
  have narrowed: "solveVersionConstraint lib n ms rng (Some ov) = Inr NoVersionFoundForOcamlConstraint"
    if p: "all_parse lib (map fst ms)"
      and a: "\<not> (\<exists>v \<in> set (eligible lib ms ov). range_ok lib n ms rng v)"
      and b: "\<exists>v \<in> set (map fst ms). range_ok lib n ms rng v"
  proof -
    from findVersion_Some[OF pa[OF p] subset_refl b]
    obtain v where "findVersion lib n ms (map fst ms) rng = Inr (Some (Found v))" by blast
    with none_elig[OF all_elig[OF p] a] show ?thesis by (simp add: unfold)
  qed
  have absent: "solveVersionConstraint lib n ms rng (Some ov) = Inr NoVersionFound"
    if p: "all_parse lib (map fst ms)"
      and a: "\<not> (\<exists>v \<in> set (map fst ms). range_ok lib n ms rng v)"
  proof -
    from a sub have "\<not> (\<exists>v \<in> set (eligible lib ms ov). range_ok lib n ms rng v)" by blast
    from none_elig[OF all_elig[OF p] this]
    have "findVersion lib n ms (eligible lib ms ov) rng = Inr None" .
    moreover from a have "findVersion lib n ms (map fst ms) rng = Inr None"
      by (intro findVersion_None[OF pa[OF p] subset_refl]) auto
    ultimately show ?thesis by (simp add: unfold)
  qed
  have throws1: "\<exists>v. solveVersionConstraint lib n ms rng (Some ov) = Inl (InvalidVersion n v)"
    if "\<not> all_parse lib (eligible lib ms ov)"
  proof -
    from that obtain v where "v \<in> set (eligible lib ms ov)" "semver_parse lib v = None"
      unfolding all_parse_def list_all_iff by blast
    from findVersion_throws[OF this sub, of n rng] show ?thesis by (auto simp: unfold)
  qed
  have throws2: "\<exists>v. solveVersionConstraint lib n ms rng (Some ov) = Inl (InvalidVersion n v)"
    if p: "all_parse lib (eligible lib ms ov)"
      and a: "\<not> (\<exists>v \<in> set (eligible lib ms ov). range_ok lib n ms rng v)"
      and q: "\<not> all_parse lib (map fst ms)"
  proof -
    from q obtain v where "v \<in> set (map fst ms)" "semver_parse lib v = None"
      unfolding all_parse_def list_all_iff by blast
    from findVersion_throws[OF this subset_refl, of n rng] none_elig[OF p a]
    show ?thesis by (auto simp: unfold)
  qed
  from found narrowed absent throws1 throws2 show ?thesis by blast
qed

lemmas stub_defs = stub_lib_def stub_parse_def stub_in_range_def stub_key_def

text \<open>
  C5, as claimed: one of the three outcomes for every collection. A collection with a key
  that \<open>semver.parse\<close> rejects makes \<open>findVersion\<close> fail its invariant: the call throws
  and returns no outcome.
\<close>

theorem C5_invalid_version_throws:
  "solveVersionConstraint stub_lib ''foo'' catalog_invalid ''*'' (Some ''2.0.0'') =
     Inl (InvalidVersion ''foo'' ''not-a-version'')"
  by (simp add: solveVersionConstraint_def findVersion_def parse_candidate_def
      availableForOCamlVersion_def ocamlDependency_def catalog_invalid_def plain_manifest_def
      stub_defs str_or_def obj_or_empty_def Let_def)

text \<open>An ocaml version that is not a version makes the filter loop throw.\<close>

lemma invalid_ocaml_version_throws:
  "solveVersionConstraint stub_lib ''foo'' catalog_ocaml1 ''*'' (Some ''not-a-version'') =
     Inl (InvalidOcamlVersion ''not-a-version'')"
  by (simp add: solveVersionConstraint_def availableForOCamlVersion_def ocamlDependency_def
      catalog_ocaml1_def ocaml1_manifest_def stub_defs str_or_def obj_or_empty_def Let_def)

lemma ocaml1_accepted: "ocaml_version_accepted stub_lib catalog_ocaml1 ''2.0.0''"
  by (simp add: ocaml_version_accepted_def availableForOCamlVersion_def ocamlDependency_def
      catalog_ocaml1_def ocaml1_manifest_def stub_defs str_or_def obj_or_empty_def)

lemma ocaml1_eligible: "eligible stub_lib catalog_ocaml1 ''2.0.0'' = []"
  by (simp add: eligible_def availableForOCamlVersion_def ocamlDependency_def catalog_ocaml1_def
      ocaml1_manifest_def stub_defs str_or_def obj_or_empty_def)

lemma ocaml1_range_ok: "range_ok stub_lib ''foo'' catalog_ocaml1 ''*'' ''1.0.0''"
  by (simp add: range_ok_def parse_candidate_def catalog_ocaml1_def ocaml1_manifest_def stub_defs)

theorem C5_witness:
  "ocaml_version_accepted stub_lib catalog_ocaml1 ''2.0.0'' \<and>
   all_parse stub_lib (map fst catalog_ocaml1) \<and>
   eligible stub_lib catalog_ocaml1 ''2.0.0'' = [] \<and>
   range_ok stub_lib ''foo'' catalog_ocaml1 ''*'' ''1.0.0'' \<and>
   solveVersionConstraint stub_lib ''foo'' catalog_ocaml1 ''*'' (Some ''2.0.0'') =
     Inr NoVersionFoundForOcamlConstraint"
proof -
  have p: "all_parse stub_lib (map fst catalog_ocaml1)"
    by (simp add: all_parse_def catalog_ocaml1_def stub_defs)
  have ex: "\<exists>v \<in> set (map fst catalog_ocaml1). range_ok stub_lib ''foo'' catalog_ocaml1 ''*'' v"
    using ocaml1_range_ok by (auto simp: catalog_ocaml1_def)
  from C5_three_outcomes[OF ocaml1_accepted, of "''foo''" "''*''"] p ex ocaml1_eligible
  have "solveVersionConstraint stub_lib ''foo'' catalog_ocaml1 ''*'' (Some ''2.0.0'') =
     Inr NoVersionFoundForOcamlConstraint" by simp
  with p ocaml1_accepted ocaml1_eligible ocaml1_range_ok show ?thesis by blast
qed

lemma candidate_masked:
  assumes "semver_prerelease lib rng = None" "semver_parse lib v = Some (ma, mi, pa, pre)"
  shows "prerelease (candidate lib ms rng v) = []" "prereleaseHidden (candidate lib ms rng v) = Some pre"
  using assms by (simp_all add: candidate_def)

lemma basic_example:
  assumes tot: "\<And>a b. 0 \<le> versionCompare lib a b \<or> 0 \<le> versionCompare lib b a"
    and trans: "\<And>a b c. 0 \<le> versionCompare lib a b \<Longrightarrow> 0 \<le> versionCompare lib b c \<Longrightarrow> 0 \<le> versionCompare lib a c"
    and star: "semver_prerelease lib ''*'' = None"
    and any: "\<And>c. prerelease c = [] \<Longrightarrow> semver_satisfies lib c ''*''"
    and p1: "semver_parse lib ''1.0.0'' \<noteq> None" and p2: "semver_parse lib ''1.1.0'' \<noteq> None"
    and p3: "semver_parse lib ''2.0.0-beta1'' \<noteq> None"
    and lt1: "versionCompare lib ''1.0.0'' ''2.0.0-beta1'' < 0"
    and lt2: "versionCompare lib ''1.1.0'' ''2.0.0-beta1'' < 0"
  shows "solveVersionConstraint lib n catalog_basic ''*'' None = Inr (Found ''2.0.0-beta1'')"
proof -
  let ?vs = "map fst catalog_basic"
  have vs: "set ?vs = {''1.0.0'', ''1.1.0'', ''2.0.0-beta1''}"
    by (auto simp: catalog_basic_def)
  have pa: "\<And>v. v \<in> set ?vs \<Longrightarrow> semver_parse lib v \<noteq> None"
    using p1 p2 p3 unfolding vs by blast
  have opam: "\<And>v. v \<in> set ?vs \<Longrightarrow> opam_of catalog_basic v = v"
    unfolding vs by (auto simp: opam_of_def catalog_basic_def plain_manifest_def)
  have ok: "range_ok lib n catalog_basic ''*'' v" if "v \<in> set ?vs" for v
  proof -
    from pa[OF that] obtain ma mi pa' pre where "semver_parse lib v = Some (ma, mi, pa', pre)"
      by auto
    from candidate_masked(1)[OF star this] any
    have "semver_satisfies lib (candidate lib catalog_basic ''*'' v) ''*''" by blast
    then show ?thesis using range_ok_candidate[OF pa[OF that] that] by simp
  qed
  have beta: "''2.0.0-beta1'' \<in> set ?vs" unfolding vs by simp
  with ok have "\<exists>v \<in> set ?vs. range_ok lib n catalog_basic ''*'' v" by blast
  from findVersion_Some[OF pa subset_refl this] obtain v where
    v: "v \<in> set ?vs" "findVersion lib n catalog_basic ?vs ''*'' = Inr (Some (Found v))" by blast
  from findVersion_best[OF pa subset_refl tot trans v(2) beta ok[OF beta]]
  have "0 \<le> versionCompare lib (opam_of catalog_basic v) (opam_of catalog_basic ''2.0.0-beta1'')" .
  with opam[OF v(1)] opam[OF beta] have "0 \<le> versionCompare lib v ''2.0.0-beta1''" by simp
  with lt1 lt2 v(1) have "v = ''2.0.0-beta1''" unfolding vs by auto
  with v(2) show ?thesis by (simp add: solveVersionConstraint_def Let_def)
qed

text \<open>
  C6. The candidates of \<open>findVersion\<close> parse, are keys of the collection, and
  \<open>versionCompare\<close> is a total preorder. When \<open>semver.prerelease\<close> of the range is \<open>null\<close>,
  every candidate is tested with an empty list of pre-release tags, its own tags kept
  aside and its text kept as \<open>raw\<close>. A version that \<open>findVersion\<close> returns is a candidate
  that passes the range test and whose opam version is not below that of any candidate
  that passes it; and a version is returned whenever some candidate passes. For the
  catalog \<open>1.0.0\<close>, \<open>1.1.0\<close>, \<open>2.0.0-beta1\<close> with no ocaml version and the range \<open>*\<close>, when
  \<open>*\<close> admits every version without pre-release tags and \<open>2.0.0-beta1\<close> is above the two
  others in opam order, the result is \<open>found\<close> with \<open>2.0.0-beta1\<close>.
\<close>

theorem C6_selection:
  assumes parses: "\<forall>v \<in> set vs. semver_parse lib v \<noteq> None"
    and keys: "set vs \<subseteq> set (map fst ms)"
    and tot: "\<forall>a b. 0 \<le> versionCompare lib a b \<or> 0 \<le> versionCompare lib b a"
    and trans: "\<forall>a b c. 0 \<le> versionCompare lib a b \<and> 0 \<le> versionCompare lib b c \<longrightarrow> 0 \<le> versionCompare lib a c"
  shows "(semver_prerelease lib rng = None \<longrightarrow>
            (\<forall>v \<in> set vs. \<exists>c ma mi pa pre.
                parse_candidate lib n ms rng v = Inr c \<and> semver_parse lib v = Some (ma, mi, pa, pre) \<and>
                raw c = v \<and> prerelease c = [] \<and> prereleaseHidden c = Some pre)) \<and>
         (\<forall>v. findVersion lib n ms vs rng = Inr (Some (Found v)) \<longrightarrow>
            v \<in> set vs \<and> range_ok lib n ms rng v \<and>
            (\<forall>w \<in> set vs. range_ok lib n ms rng w \<longrightarrow>
               0 \<le> versionCompare lib (opam_of ms v) (opam_of ms w))) \<and>
         ((\<exists>v \<in> set vs. range_ok lib n ms rng v) \<longrightarrow>
            (\<exists>v. findVersion lib n ms vs rng = Inr (Some (Found v)))) \<and>
         (semver_prerelease lib ''*'' = None \<and> (\<forall>c. prerelease c = [] \<longrightarrow> semver_satisfies lib c ''*'') \<and>
          semver_parse lib ''1.0.0'' \<noteq> None \<and> semver_parse lib ''1.1.0'' \<noteq> None \<and>
          semver_parse lib ''2.0.0-beta1'' \<noteq> None \<and>
          versionCompare lib ''1.0.0'' ''2.0.0-beta1'' < 0 \<and>
          versionCompare lib ''1.1.0'' ''2.0.0-beta1'' < 0 \<longrightarrow>
          solveVersionConstraint lib n catalog_basic ''*'' None = Inr (Found ''2.0.0-beta1''))"
proof -
  have pa: "\<And>v. v \<in> set vs \<Longrightarrow> semver_parse lib v \<noteq> None" using parses by blast
  have tot': "\<And>a b. 0 \<le> versionCompare lib a b \<or> 0 \<le> versionCompare lib b a" using tot by blast
  have trans': "\<And>a b c. 0 \<le> versionCompare lib a b \<Longrightarrow> 0 \<le> versionCompare lib b c \<Longrightarrow> 0 \<le> versionCompare lib a c"
    using trans by blast
  have masked: "\<exists>c ma mi pa pre.
                parse_candidate lib n ms rng v = Inr c \<and> semver_parse lib v = Some (ma, mi, pa, pre) \<and>
                raw c = v \<and> prerelease c = [] \<and> prereleaseHidden c = Some pre"
    if m: "semver_prerelease lib rng = None" and v: "v \<in> set vs" for v
  proof -
    from pa[OF v] obtain ma mi pa' pre where p: "semver_parse lib v = Some (ma, mi, pa', pre)"
      by auto
    from v keys have "v \<in> set (map fst ms)" by blast
    from parse_candidate_ok[OF pa[OF v] this, of n rng] candidate_masked[OF m p, of ms] p
    show ?thesis by (auto simp: candidate_fields)
  qed
  have first: "v \<in> set vs \<and> range_ok lib n ms rng v \<and>
            (\<forall>w \<in> set vs. range_ok lib n ms rng w \<longrightarrow>
               0 \<le> versionCompare lib (opam_of ms v) (opam_of ms w))"
    if r: "findVersion lib n ms vs rng = Inr (Some (Found v))" for v
  proof -
    have "\<exists>u \<in> set vs. range_ok lib n ms rng u"
    proof (rule ccontr)
      assume "\<not> (\<exists>u \<in> set vs. range_ok lib n ms rng u)"
      then have "findVersion lib n ms vs rng = Inr None"
        by (intro findVersion_None[OF pa keys]) auto
      with r show False by simp
    qed
    from findVersion_Some[OF pa keys this] r have "v \<in> set vs" "range_ok lib n ms rng v" by auto
    moreover have "0 \<le> versionCompare lib (opam_of ms v) (opam_of ms w)"
      if "w \<in> set vs" "range_ok lib n ms rng w" for w
      by (rule findVersion_best[OF pa keys tot' trans' r that])
    ultimately show ?thesis by blast
  qed
  have some: "\<exists>v. findVersion lib n ms vs rng = Inr (Some (Found v))"
    if "\<exists>v \<in> set vs. range_ok lib n ms rng v"
    using findVersion_Some[OF pa keys that] by blast
  have ex: "solveVersionConstraint lib n catalog_basic ''*'' None = Inr (Found ''2.0.0-beta1'')"
    if "semver_prerelease lib ''*'' = None" "\<forall>c. prerelease c = [] \<longrightarrow> semver_satisfies lib c ''*''"
      "semver_parse lib ''1.0.0'' \<noteq> None" "semver_parse lib ''1.1.0'' \<noteq> None"
      "semver_parse lib ''2.0.0-beta1'' \<noteq> None"
      "versionCompare lib ''1.0.0'' ''2.0.0-beta1'' < 0"
      "versionCompare lib ''1.1.0'' ''2.0.0-beta1'' < 0"
  proof -
    from that(2) have any: "\<And>c. prerelease c = [] \<Longrightarrow> semver_satisfies lib c ''*''" by blast
    show ?thesis by (rule basic_example[OF tot' trans' that(1) any that(3-7)])
  qed
  from masked first some ex show ?thesis by blast
qed

lemma stub_compare:
  "0 \<le> versionCompare stub_lib a b \<longleftrightarrow> stub_key b \<le> stub_key a"
  "versionCompare stub_lib a b < 0 \<longleftrightarrow> stub_key a < stub_key b"
  by (auto simp: stub_lib_def)

theorem C6_witness:
  "map (semver_parse stub_lib) (map fst catalog_basic) =
     [Some (1, 0, 0, []), Some (1, 1, 0, []), Some (2, 0, 0, [''beta1''])] \<and>
   semver_prerelease stub_lib ''*'' = None \<and>
   parse_candidate stub_lib ''foo'' catalog_basic ''*'' ''2.0.0-beta1'' =
     Inr \<lparr> raw = ''2.0.0-beta1'', major = 2, minor = 0, patch = 0, prerelease = [],
           prereleaseHidden = Some [''beta1''], opamVersion = ''2.0.0-beta1'' \<rparr> \<and>
   range_ok stub_lib ''foo'' catalog_basic ''*'' ''1.1.0'' \<and>
   findVersion stub_lib ''foo'' catalog_basic (map fst catalog_basic) ''*'' =
     Inr (Some (Found ''2.0.0-beta1'')) \<and>
   solveVersionConstraint stub_lib ''foo'' catalog_basic ''*'' None = Inr (Found ''2.0.0-beta1'')"
proof -
  have p: "\<forall>v \<in> set (map fst catalog_basic). semver_parse stub_lib v \<noteq> None"
    by (simp add: catalog_basic_def stub_defs)
  have tot: "\<forall>a b. 0 \<le> versionCompare stub_lib a b \<or> 0 \<le> versionCompare stub_lib b a"
    by (auto simp: stub_compare)
  have trans: "\<forall>a b c. 0 \<le> versionCompare stub_lib a b \<and> 0 \<le> versionCompare stub_lib b c
                \<longrightarrow> 0 \<le> versionCompare stub_lib a c"
    by (auto simp: stub_compare)
  have star: "semver_prerelease stub_lib ''*'' = None" by (simp add: stub_defs)
  have any: "\<forall>c. prerelease c = [] \<longrightarrow> semver_satisfies stub_lib c ''*''"
    by (simp add: stub_defs)
  have ps: "semver_parse stub_lib ''1.0.0'' \<noteq> None" "semver_parse stub_lib ''1.1.0'' \<noteq> None"
    "semver_parse stub_lib ''2.0.0-beta1'' \<noteq> None"
    by (simp_all add: stub_defs)
  have lt: "versionCompare stub_lib ''1.0.0'' ''2.0.0-beta1'' < 0"
    "versionCompare stub_lib ''1.1.0'' ''2.0.0-beta1'' < 0"
    by (simp_all add: stub_compare stub_key_def stub_parse_def)
  have cand: "parse_candidate stub_lib ''foo'' catalog_basic ''*'' ''2.0.0-beta1'' =
     Inr \<lparr> raw = ''2.0.0-beta1'', major = 2, minor = 0, patch = 0, prerelease = [],
           prereleaseHidden = Some [''beta1''], opamVersion = ''2.0.0-beta1'' \<rparr>"
    by (simp add: parse_candidate_def catalog_basic_def plain_manifest_def stub_defs)
  have ok: "range_ok stub_lib ''foo'' catalog_basic ''*'' ''1.1.0''"
    by (simp add: range_ok_def parse_candidate_def catalog_basic_def plain_manifest_def stub_defs)
  note inst = C6_selection[OF p subset_refl tot trans, of "''*''" "''foo''"]
  from inst star any ps lt
  have solve: "solveVersionConstraint stub_lib ''foo'' catalog_basic ''*'' None = Inr (Found ''2.0.0-beta1'')"
    by blast
  then have fv: "findVersion stub_lib ''foo'' catalog_basic (map fst catalog_basic) ''*'' =
     Inr (Some (Found ''2.0.0-beta1''))"
    by (auto simp: solveVersionConstraint_def Let_def split: sum.splits option.splits)
  have pm: "map (semver_parse stub_lib) (map fst catalog_basic) =
     [Some (1, 0, 0, []), Some (1, 1, 0, []), Some (2, 0, 0, [''beta1''])]"
    by (simp add: catalog_basic_def stub_defs)
  from pm star cand ok fv solve show ?thesis by blast
qed

text \<open>
  C7, as the code has it: for an entry whose \<open>resolved\<close> field is missing or does not
  parse as a reference, \<open>isLockfileEntryOutdated\<close> returns \<open>false\<close> before it looks at the
  range or the ocaml version.
\<close>

theorem C7_invalid_reference_is_kept:
  "\<not> isValidReference (resolved lockfileEntry) \<Longrightarrow>
     isLockfileEntryOutdated lib ocamlVersion lockfileEntry versionRange hasVersion = Inr False"
  by (simp add: isLockfileEntryOutdated_def)

text \<open>
  C7, as claimed: such an entry is reported as outdated. For the entry without a
  \<open>resolved\<close> field the result is \<open>false\<close>, also with a range that its version does not
  satisfy.
\<close>

theorem C7_unresolved_entry_not_outdated:
  "resolved entry_unresolved = None \<and> \<not> isValidReference (resolved entry_unresolved) \<and>
   isLockfileEntryOutdated stub_lib (Some ''2.0.0'') entry_unresolved ''>=5.0.0'' True = Inr False \<and>
   isLockfileEntryOutdated stub_lib (Some ''2.0.0'') entry_unresolved ''>=5.0.0'' True \<noteq> Inr True"
  by (simp add: isLockfileEntryOutdated_def isValidReference_def entry_unresolved_def)

theorem C7_witness:
  "parseReference ''https://registry.example/foo.tgz'' =
     Inl (Malformed ''https://registry.example/foo.tgz'' ''https://registry.example/foo.tgz'') \<and>
   \<not> isValidReference (resolved entry_url) \<and>
   isLockfileEntryOutdated stub_lib None entry_url ''*'' False = Inr False"
proof -
  have m: "parseReference ''https://registry.example/foo.tgz'' =
     Inl (Malformed ''https://registry.example/foo.tgz'' ''https://registry.example/foo.tgz'')"
    by (simp add: parseReference_def)
  then have inv: "\<not> isValidReference (resolved entry_url)"
    by (simp add: isValidReference_def entry_url_def entry_unresolved_def)
  from C7_invalid_reference_is_kept[OF inv] m inv show ?thesis by blast
qed

section \<open>Fetching with and without a checksum\<close>

lemma foldl_on_data_None: "foldl (on_data None) st chunks = st"
  by (induction chunks arbitrary: st) (simp_all add: on_data_def)


lemma writeValidatedStream_None:
  "writeValidatedStream env filename None =
     (case env_writeError env of
        Some err \<Rightarrow> ([CreateWriteStream filename], Inl (StreamError err))
      | None \<Rightarrow> ([CreateWriteStream filename, HasherDigest], Inr (env_md5 env [])))"
  by (simp add: writeValidatedStream_def foldl_on_data_None Let_def split: option.splits)


text \<open>The steps after the download act on the file system and on subprocesses only.\<close>

lemma perform_fs: "is_fs a \<Longrightarrow> \<forall>b \<in> set (fst (perform env a)). is_fs b"
  by (simp add: perform_def)

lemma and_then_fs:
  "\<forall>b \<in> set (fst x). is_fs b \<Longrightarrow> \<forall>b \<in> set (fst y). is_fs b \<Longrightarrow>
     \<forall>b \<in> set (fst (and_then x y)). is_fs b"
  by (auto simp: and_then_def split: option.splits)

lemma unpackTarball_fs: "\<forall>b \<in> set (fst (unpackTarball env filename dest format)). is_fs b"
  by (simp add: unpackTarball_def perform_def Let_def)

lemma writeJson_fs: "\<forall>b \<in> set (fst (writeJson env filename object)). is_fs b"
  by (simp add: writeJson_def perform_def)

lemma writeFiles_fs: "\<forall>b \<in> set (fst (writeFiles env dest files)). is_fs b"
  by (auto simp: writeFiles_def perform_def Let_def)

lemma applyPatches_fs: "\<forall>b \<in> set (fst (applyPatches env dest patches)). is_fs b"
proof (induction patches)
  case Nil
  then show ?case by simp
next
  case (Cons p rest)
  show ?case
    unfolding applyPatches.simps Let_def
    by (intro and_then_fs perform_fs Cons.IH) simp_all
qed

lemma rest_fs:
  "\<forall>b \<in> set (fst (and_then (writeJson env f manifest)
                        (and_then (writeFiles env dest files) (applyPatches env dest patches)))). is_fs b"
  by (intro and_then_fs writeJson_fs writeFiles_fs applyPatches_fs)

text \<open>When no action fails, the steps after the download succeed.\<close>

lemma perform_ok: "env_fails env a = None \<Longrightarrow> snd (perform env a) = None"
  by (simp add: perform_def)

lemma and_then_ok: "snd x = None \<Longrightarrow> snd y = None \<Longrightarrow> snd (and_then x y) = None"
  by (simp add: and_then_def)

lemma first_error_None: "(\<And>e. e \<in> set es \<Longrightarrow> e = None) \<Longrightarrow> first_error es = None"
  by (induction es rule: first_error.induct) auto

lemma writeFiles_ok:
  assumes "\<forall>a. env_fails env a = None"
  shows "snd (writeFiles env dest files) = None"
  unfolding writeFiles_def Let_def snd_conv
  by (rule first_error_None) (use assms in \<open>auto simp: perform_def\<close>)

lemma applyPatches_ok:
  assumes "\<forall>a. env_fails env a = None"
  shows "snd (applyPatches env dest patches) = None"
proof (induction patches)
  case Nil
  then show ?case by simp
next
  case (Cons p rest)
  show ?case
    unfolding applyPatches.simps Let_def
    by (intro and_then_ok perform_ok Cons.IH) (simp_all add: assms)
qed

lemma rest_ok:
  assumes "\<forall>a. env_fails env a = None"
  shows "snd (and_then (writeJson env f manifest)
                (and_then (writeFiles env dest files) (applyPatches env dest patches))) = None"
  unfolding writeJson_def
  by (intro and_then_ok perform_ok writeFiles_ok applyPatches_ok assms) (simp add: assms)

lemma unpackTarball_ok:
  assumes "\<forall>a. env_fails env a = None"
  shows "snd (unpackTarball env filename dest format) = None"
  using assms by (simp add: unpackTarball_def perform_def Let_def)

text \<open>The download without a checksum.\<close>

lemma fetchTarball_None:
  "filter is_hasher_update (fst (fetchTarball env url None filename)) = []"
  "snd (fetchTarball env url None filename) = Inr h \<Longrightarrow> h = env_md5 env []"
  "env_statusCode env < 400 \<Longrightarrow> env_writeError env = None \<Longrightarrow>
     snd (fetchTarball env url None filename) = Inr (env_md5 env [])"
  by (auto simp: fetchTarball_def writeValidatedStream_None Let_def split: option.splits if_splits)


lemma fetch_manifest_no_url:
  assumes "opam_url manifest = None"
  shows "(\<forall>b \<in> set (fst (fetch_manifest env this manifest)). is_fs b) \<and>
         (\<forall>r. snd (fetch_manifest env this manifest) = Inr r \<longrightarrow> fo_hash r = str_or (f_hash this) [])"
  using assms rest_fs[of env "path_join (f_dest this) ''package.json''" manifest "f_dest this"
      "opam_files manifest" "opam_patches manifest"]
  by (auto simp: fetch_manifest_def Let_def split: option.splits)

lemma fetch_manifest_no_url_ok:
  assumes "opam_url manifest = None" "\<forall>a. env_fails env a = None"
  shows "snd (fetch_manifest env this manifest) =
           Inr \<lparr> fo_hash = str_or (f_hash this) [], fo_resolved = None \<rparr>"
  using assms(1) rest_ok[OF assms(2), of "path_join (f_dest this) ''package.json''" manifest
      "f_dest this" "opam_files manifest" "opam_patches manifest"]
  by (simp add: fetch_manifest_def Let_def)

lemma fetch_manifest_no_checksum:
  assumes "opam_url manifest = Some url" "opam_checksum manifest = None"
  shows "(\<forall>b \<in> set (fst (fetch_manifest env this manifest)). \<not> is_hasher_update b) \<and>
         (\<forall>r. snd (fetch_manifest env this manifest) = Inr r \<longrightarrow> fo_hash r = env_md5 env [])"
proof -
  let ?path = "path_join (f_dest this) (env_TARBALL_FILENAME env)"
  have fs: "is_fs b \<Longrightarrow> \<not> is_hasher_update b" for b by (cases b) simp_all
  have dl: "\<forall>b \<in> set (fst (fetchTarball env url None ?path)). \<not> is_hasher_update b"
    by (auto simp: fetchTarball_def writeValidatedStream_None Let_def split: option.splits)
  have h: "snd (fetchTarball env url None ?path) = Inr h \<Longrightarrow> h = env_md5 env []" for h
    by (rule fetchTarball_None(2))
  note r = rest_fs[of env "path_join (f_dest this) ''package.json''" manifest "f_dest this"
      "opam_files manifest" "opam_patches manifest"]
  note u = unpackTarball_fs[of env ?path "f_dest this" "getTarballFormatFromFilename url"]
  show ?thesis
    using assms dl h r u fs
    by (auto simp: fetch_manifest_def Let_def split: option.splits sum.splits)
qed

lemma fetch_manifest_no_checksum_ok:
  assumes "opam_url manifest = Some url" "opam_checksum manifest = None"
    and "env_statusCode env < 400" "env_writeError env = None" "\<forall>a. env_fails env a = None"
  shows "snd (fetch_manifest env this manifest) =
           Inr \<lparr> fo_hash = env_md5 env [], fo_resolved = None \<rparr>"
  using assms(1,2)
    fetchTarball_None(3)[OF assms(3,4), of url "path_join (f_dest this) (env_TARBALL_FILENAME env)"]
    unpackTarball_ok[OF assms(5), of "path_join (f_dest this) (env_TARBALL_FILENAME env)"
      "f_dest this" "getTarballFormatFromFilename url"]
    rest_ok[OF assms(5), of "path_join (f_dest this) ''package.json''" manifest
      "f_dest this" "opam_files manifest" "opam_patches manifest"]
  by (simp add: fetch_manifest_def Let_def)

text \<open>
  \<open>_fetch\<close> as a whole stops at its first statement, before any of this: the properties
  below are those of \<open>_fetchTarball\<close> and of the statements of \<open>_fetch\<close> after the lookup.
\<close>

lemma fetch_stops_at_parseResolution:
  "fetch env this = ([], Inl (NotAFunction ''parseResolution''))"
  by (simp add: fetch_def)




text \<open>
  C10. With no checksum, \<open>writeValidatedStream\<close> and the download of \<open>_fetchTarball\<close>
  feed no chunk to the hasher and, when they resolve (as they do on a status below 400
  when the stream finishes), resolve with the digest of no bytes. The statements of \<open>_fetch\<close> that follow the lookup
  of the manifest then return that digest as the hash when they return, and they return
  when no action fails. With no download URL they make no request and compute no digest
  (their only actions are those of the file system and of subprocesses), and the hash
  they return is the preset hash of the fetcher, or the empty string.
\<close>

theorem C10_hash_without_checksum:
  "filter is_hasher_update (fst (writeValidatedStream env filename None)) = [] \<and>
   (env_writeError env = None \<longrightarrow>
      snd (writeValidatedStream env filename None) = Inr (env_md5 env [])) \<and>
   filter is_hasher_update (fst (fetchTarball env url None filename)) = [] \<and>
   (\<forall>h. snd (fetchTarball env url None filename) = Inr h \<longrightarrow> h = env_md5 env []) \<and>
   (env_statusCode env < 400 \<and> env_writeError env = None \<longrightarrow>
      snd (fetchTarball env url None filename) = Inr (env_md5 env [])) \<and>
   (opam_url manifest \<noteq> None \<and> opam_checksum manifest = None \<longrightarrow>
      filter is_hasher_update (fst (fetch_manifest env this manifest)) = [] \<and>
      (\<forall>r. snd (fetch_manifest env this manifest) = Inr r \<longrightarrow> fo_hash r = env_md5 env []) \<and>
      (env_statusCode env < 400 \<and> env_writeError env = None \<and> (\<forall>a. env_fails env a = None) \<longrightarrow>
         snd (fetch_manifest env this manifest) =
           Inr \<lparr> fo_hash = env_md5 env [], fo_resolved = None \<rparr>)) \<and>
   (opam_url manifest = None \<longrightarrow>
      filter (\<lambda>a. \<not> is_fs a) (fst (fetch_manifest env this manifest)) = [] \<and>
      (\<forall>r. snd (fetch_manifest env this manifest) = Inr r \<longrightarrow> fo_hash r = str_or (f_hash this) []) \<and>
      ((\<forall>a. env_fails env a = None) \<longrightarrow>
         snd (fetch_manifest env this manifest) =
           Inr \<lparr> fo_hash = str_or (f_hash this) [], fo_resolved = None \<rparr>))"
proof -
  have a: "filter is_hasher_update (fst (fetch_manifest env this manifest)) = [] \<and>
      (\<forall>r. snd (fetch_manifest env this manifest) = Inr r \<longrightarrow> fo_hash r = env_md5 env []) \<and>
      (env_statusCode env < 400 \<and> env_writeError env = None \<and> (\<forall>a. env_fails env a = None) \<longrightarrow>
         snd (fetch_manifest env this manifest) =
           Inr \<lparr> fo_hash = env_md5 env [], fo_resolved = None \<rparr>)"
    if "opam_url manifest \<noteq> None" "opam_checksum manifest = None"
  proof -
    from that(1) obtain u where u: "opam_url manifest = Some u" by auto
    from fetch_manifest_no_checksum[OF u that(2), of env this]
      fetch_manifest_no_checksum_ok[OF u that(2), of env this]
    show ?thesis by (simp add: filter_empty_conv)
  qed
  have b: "filter (\<lambda>a. \<not> is_fs a) (fst (fetch_manifest env this manifest)) = [] \<and>
      (\<forall>r. snd (fetch_manifest env this manifest) = Inr r \<longrightarrow> fo_hash r = str_or (f_hash this) []) \<and>
      ((\<forall>a. env_fails env a = None) \<longrightarrow>
         snd (fetch_manifest env this manifest) =
           Inr \<lparr> fo_hash = str_or (f_hash this) [], fo_resolved = None \<rparr>)"
    if "opam_url manifest = None"
    using fetch_manifest_no_url[OF that, of env this] fetch_manifest_no_url_ok[OF that, of env this]
    by (simp add: filter_empty_conv)
  have w: "filter is_hasher_update (fst (writeValidatedStream env filename None)) = []"
    "env_writeError env = None \<Longrightarrow>
       snd (writeValidatedStream env filename None) = Inr (env_md5 env [])"
    by (simp_all add: writeValidatedStream_None split: option.splits)
  from a b w fetchTarball_None[of env url filename] show ?thesis by blast
qed

lemma ev_nosum:
  "fetch_manifest (example_env 200 [''hello world'']) fetcher_foo manifest_nosum =
     ([Request ''https://example.org/foo-1.0.0.tar.gz'',
       CreateWriteStream ''/cache/foo/.yarn-tarball.tgz'', HasherDigest,
       Exec ''tar -xzf /cache/foo/.yarn-tarball.tgz --strip-components 1 -C /cache/foo'' None,
       WriteFile ''/cache/foo/package.json'' ''{}''],
      Inr \<lparr> fo_hash = ''d41d8cd98f00b204e9800998ecf8427e'', fo_resolved = None \<rparr>)"
  by (simp add: fetch_manifest_def fetchTarball_def
      writeValidatedStream_def on_data_def manifest_nosum_def manifest_sum_def example_env_def
      fetcher_foo_def stub_md5_def path_join_def unpackTarball_def getTarballFormatFromFilename_def
      endsWith_def perform_def and_then_def writeJson_def writeFiles_def Let_def)

lemma ev_nourl:
  "fetch_manifest (example_env 200 []) fetcher_foo manifest_nourl =
     ([WriteFile ''/cache/foo/package.json'' ''{}''],
      Inr \<lparr> fo_hash = [], fo_resolved = None \<rparr>)"
  by (simp add: fetch_manifest_def manifest_nourl_def manifest_sum_def
      example_env_def fetcher_foo_def path_join_def perform_def and_then_def writeJson_def
      writeFiles_def str_or_def Let_def)

theorem C10_witness:
  "fetch_manifest (example_env 200 [''hello world'']) fetcher_foo manifest_nosum =
     ([Request ''https://example.org/foo-1.0.0.tar.gz'',
       CreateWriteStream ''/cache/foo/.yarn-tarball.tgz'', HasherDigest,
       Exec ''tar -xzf /cache/foo/.yarn-tarball.tgz --strip-components 1 -C /cache/foo'' None,
       WriteFile ''/cache/foo/package.json'' ''{}''],
      Inr \<lparr> fo_hash = ''d41d8cd98f00b204e9800998ecf8427e'', fo_resolved = None \<rparr>) \<and>
   stub_md5 [] = ''d41d8cd98f00b204e9800998ecf8427e'' \<and>
   stub_md5 ''hello world'' = ''5eb63bbbe01eeed093cb22bb8f5acdc3'' \<and>
   snd (fetchTarball (example_env 200 [''hello world'']) ''https://example.org/foo-1.0.0.tar.gz''
          None ''/cache/foo/.yarn-tarball.tgz'') = Inr ''d41d8cd98f00b204e9800998ecf8427e'' \<and>
   fetch_manifest (example_env 200 []) fetcher_foo manifest_nourl =
     ([WriteFile ''/cache/foo/package.json'' ''{}''],
      Inr \<lparr> fo_hash = [], fo_resolved = None \<rparr>)"
proof -
  let ?env = "example_env 200 [''hello world'']"
  have ok: "env_statusCode ?env < 400 \<and> env_writeError ?env = None"
    by (simp add: example_env_def)
  from C10_hash_without_checksum[where env = ?env and url = "''https://example.org/foo-1.0.0.tar.gz''"
      and filename = "''/cache/foo/.yarn-tarball.tgz''" and manifest = manifest_nosum
      and this = fetcher_foo] ok
  have "snd (fetchTarball ?env ''https://example.org/foo-1.0.0.tar.gz''
          None ''/cache/foo/.yarn-tarball.tgz'') = Inr (env_md5 ?env [])" by blast
  then have "snd (fetchTarball ?env ''https://example.org/foo-1.0.0.tar.gz''
          None ''/cache/foo/.yarn-tarball.tgz'') = Inr ''d41d8cd98f00b204e9800998ecf8427e''"
    by (simp add: example_env_def stub_md5_def)
  with ev_nosum ev_nourl show ?thesis by (simp add: stub_md5_def)
qed

end
